theory Spec2Isabelle
  imports Main "HOL-Library.Sublist" "HOL-Library.AList"
begin

section \<open>Python strings\<close>

text \<open>
  A Python \<open>str\<close> is modelled as a \<open>string\<close>; a \<open>char\<close> is read as the code point
  of the same number, so the texts covered are those over the code points 0 to 255.
  The functions below are the \<open>str\<close> methods the program calls.
\<close>

definition py_isspace :: "char \<Rightarrow> bool" where
  \<comment> \<open>\<open>str.isspace\<close> on one character; also what \<open>\s\<close> matches in a \<open>str\<close> pattern\<close>
  "py_isspace c = ((of_char c :: nat) \<in> {9, 10, 11, 12, 13, 28, 29, 30, 31, 32, 133, 160})"

definition py_lower_char :: "char \<Rightarrow> char" where
  "py_lower_char c =
     (let n = (of_char c :: nat)
      in if (65 \<le> n \<and> n \<le> 90) \<or> (192 \<le> n \<and> n \<le> 222 \<and> n \<noteq> 215)
         then char_of (n + 32) else c)"

definition lower :: "string \<Rightarrow> string" where
  "lower s = map py_lower_char s"

definition strip :: "string \<Rightarrow> string" where
  "strip s = rev (dropWhile py_isspace (rev (dropWhile py_isspace s)))"

fun split_on :: "char \<Rightarrow> string \<Rightarrow> string list" where
  \<comment> \<open>\<open>s.split(c)\<close> for a one-character separator: never the empty list\<close>
  "split_on c [] = [[]]"
| "split_on c (x # xs) =
     (if x = c then [] # split_on c xs
      else (case split_on c xs of
              [] \<Rightarrow> [[x]]
            | l # ls \<Rightarrow> (x # l) # ls))"

fun py_in :: "string \<Rightarrow> string \<Rightarrow> bool" where
  \<comment> \<open>\<open>sub in s\<close>: \<open>sub\<close> occurs in \<open>s\<close> as a contiguous substring\<close>
  "py_in sub [] = (sub = [])"
| "py_in sub (x # xs) = (prefix sub (x # xs) \<or> py_in sub xs)"

section \<open>Regular expressions as \<open>re.search\<close> runs them\<close>

text \<open>
  The two patterns of the program are kept as syntax trees and run by a backtracking
  matcher. \<open>rmatch\<close> lists, in the order in which backtracking tries them, all the ways
  a pattern matches at the start of the input: the text of group 1 (when the group took
  part) and the input left over. \<open>re_search\<close> tries each start position from the left and
  returns the first way of the first position that has one.
\<close>

record flags =
  ignorecase :: bool
  dotall :: bool

datatype setitem = SChar char | SSpace

datatype atom = Lit char | Dot | WS | NotSet "setitem list"

datatype regex =
    Eps
  | Atom atom
  | Opt atom
  | Star atom
  | Plus atom
  | LazyPlus atom
  | Cat regex regex
  | Alt regex regex
  | Group regex
  | Eos

fun item_match :: "setitem \<Rightarrow> char \<Rightarrow> bool" where
  "item_match (SChar c) x = (x = c)"
| "item_match SSpace x = py_isspace x"

fun atom_match :: "flags \<Rightarrow> atom \<Rightarrow> char \<Rightarrow> bool" where
  "atom_match f (Lit c) x =
     (if ignorecase f then py_lower_char x = py_lower_char c else x = c)"
| "atom_match f Dot x = (dotall f \<or> x \<noteq> CHR ''\<newline>'')"
| "atom_match f WS x = py_isspace x"
| "atom_match f (NotSet its) x = (\<not> list_ex (\<lambda>it. item_match it x) its)"

fun star_greedy :: "(char \<Rightarrow> bool) \<Rightarrow> string \<Rightarrow> string list" where
  \<comment> \<open>the inputs left after a greedy repetition, longest match first\<close>
  "star_greedy p [] = [[]]"
| "star_greedy p (x # xs) = (if p x then star_greedy p xs else []) @ [x # xs]"

fun star_lazy :: "(char \<Rightarrow> bool) \<Rightarrow> string \<Rightarrow> string list" where
  \<comment> \<open>the inputs left after a lazy repetition, shortest match first\<close>
  "star_lazy p [] = [[]]"
| "star_lazy p (x # xs) = (x # xs) # (if p x then star_lazy p xs else [])"

definition plus_of :: "((char \<Rightarrow> bool) \<Rightarrow> string \<Rightarrow> string list) \<Rightarrow> (char \<Rightarrow> bool) \<Rightarrow> string \<Rightarrow> string list" where
  "plus_of star p s = (case s of [] \<Rightarrow> [] | x # xs \<Rightarrow> if p x then star p xs else [])"

definition later_group :: "string option \<Rightarrow> string option \<Rightarrow> string option" where
  "later_group g1 g2 = (case g2 of None \<Rightarrow> g1 | Some g \<Rightarrow> Some g)"

fun rmatch :: "flags \<Rightarrow> regex \<Rightarrow> string \<Rightarrow> (string option \<times> string) list" where
  "rmatch f Eps s = [(None, s)]"
| "rmatch f (Atom a) s = map (Pair None) (plus_of (\<lambda>p t. [t]) (atom_match f a) s)"
| "rmatch f (Opt a) s = map (Pair None) (plus_of (\<lambda>p t. [t]) (atom_match f a) s @ [s])"
| "rmatch f (Star a) s = map (Pair None) (star_greedy (atom_match f a) s)"
| "rmatch f (Plus a) s = map (Pair None) (plus_of star_greedy (atom_match f a) s)"
| "rmatch f (LazyPlus a) s = map (Pair None) (plus_of star_lazy (atom_match f a) s)"
| "rmatch f (Cat r1 r2) s =
     concat (map (\<lambda>(g1, s1). map (\<lambda>(g2, s2). (later_group g1 g2, s2)) (rmatch f r2 s1))
                 (rmatch f r1 s))"
| "rmatch f (Alt r1 r2) s = rmatch f r1 s @ rmatch f r2 s"
| "rmatch f (Group r) s =
     map (\<lambda>(g, s'). (Some (take (length s - length s') s), s')) (rmatch f r s)"
| "rmatch f Eos s = (if s = [] \<or> s = [CHR ''\<newline>''] then [(None, s)] else [])"

fun re_search :: "flags \<Rightarrow> regex \<Rightarrow> string \<Rightarrow> string option option" where
  \<comment> \<open>\<open>None\<close>: no match; \<open>Some g\<close>: a match whose \<open>group(1)\<close> is \<open>g\<close>\<close>
  "re_search f r [] = (case rmatch f r [] of [] \<Rightarrow> None | m # _ \<Rightarrow> Some (fst m))"
| "re_search f r (x # xs) =
     (case rmatch f r (x # xs) of [] \<Rightarrow> re_search f r xs | m # _ \<Rightarrow> Some (fst m))"

definition cats :: "regex list \<Rightarrow> regex" where
  "cats rs = foldr Cat rs Eps"

definition lit :: "string \<Rightarrow> regex" where
  "lit s = cats (map (\<lambda>c. Atom (Lit c)) s)"

definition no_flags :: flags where
  "no_flags = \<lparr>ignorecase = False, dotall = False\<rparr>"

section \<open>\<open>QuizSolver.extract_submit_url\<close>\<close>

definition submit_url_re :: regex where
  \<comment> \<open>\<^verbatim>\<open>Post your answer to (https?://[^\s\)]+)\<close>\<close>
  "submit_url_re =
     Cat (lit ''Post your answer to '')
         (Group (cats [lit ''http'', Opt (Lit CHR ''s''), lit ''://'',
                       Plus (NotSet [SSpace, SChar CHR '')''])]))"

definition extract_submit_url :: "string \<Rightarrow> string option" where
  "extract_submit_url text =
     (case re_search no_flags submit_url_re text of
        Some g \<Rightarrow> g
      | None \<Rightarrow> None)"

definition strip_pre :: "string \<Rightarrow> string \<Rightarrow> string option" where
  "strip_pre w s = (if prefix w s then Some (drop (length w) s) else None)"

definition url_char :: "char \<Rightarrow> bool" where
  "url_char c = (\<not> py_isspace c \<and> c \<noteq> CHR '')'')"

definition url_body :: "string \<Rightarrow> string \<Rightarrow> string option" where
  "url_body scheme b = (if takeWhile url_char b = [] then None else Some (scheme @ takeWhile url_char b))"

definition submit_phrase :: string where
  "submit_phrase = ''Post your answer to ''"

definition url_after :: "string \<Rightarrow> string option" where
  "url_after r =
     (case strip_pre ''https://'' r of
        Some b \<Rightarrow> url_body ''https://'' b
      | None \<Rightarrow>
          (case strip_pre ''http://'' r of
             Some b \<Rightarrow> url_body ''http://'' b
           | None \<Rightarrow> None))"

definition url_here :: "string \<Rightarrow> string option" where
  "url_here s =
     (case strip_pre submit_phrase s of
        None \<Rightarrow> None
      | Some r \<Rightarrow> url_after r)"

definition url_tail :: regex where
  "url_tail = Cat (Plus (NotSet [SSpace, SChar CHR '')''])) Eps"

definition scheme_re :: regex where
  "scheme_re = cats [lit ''http'', Opt (Lit CHR ''s''), lit ''://'', Plus (NotSet [SSpace, SChar CHR '')''])]"

fun first_url :: "string \<Rightarrow> string option" where
  "first_url [] = url_here []"
| "first_url (x # xs) = (case url_here (x # xs) of Some u \<Rightarrow> Some u | None \<Rightarrow> first_url xs)"

definition submit_occurrence :: "string \<Rightarrow> string \<Rightarrow> string \<Rightarrow> bool" where
  "submit_occurrence pre u text \<longleftrightarrow>
     (\<exists>scheme body post.
        (scheme = ''http://'' \<or> scheme = ''https://'') \<and> u = scheme @ body \<and>
        body \<noteq> [] \<and> (\<forall>c \<in> set body. \<not> py_isspace c \<and> c \<noteq> CHR '')'') \<and>
        (post = [] \<or> py_isspace (hd post) \<or> hd post = CHR '')'') \<and>
        text = pre @ ''Post your answer to '' @ u @ post)"

section \<open>Python values and exceptions\<close>

text \<open>
  The program passes around untyped Python values: JSON documents, answers, URLs taken
  from a response. They are modelled by one datatype. A \<open>dict\<close> with string keys is an
  association list in insertion order with distinct keys; \<open>AList.update\<close> is the
  assignment \<open>d[k] = v\<close>. A float is kept as a decimal literal \<open>m * 10 ^ e\<close> (or an
  infinity or a NaN); the program never computes with floats, it only tests them for
  truth.
\<close>

datatype pyfloat = Finite int int | Infinite bool | NaN

datatype pyval =
    PNone
  | PBool bool
  | PInt int
  | PFloat pyfloat
  | PStr string
  | PList "pyval list"
  | PDict "(string \<times> pyval) list"

datatype error = Raised string string
  \<comment> \<open>an exception of a subclass of \<open>Exception\<close>: class name and message\<close>

fun str_of :: "error \<Rightarrow> string" where
  \<comment> \<open>\<open>str(e)\<close>\<close>
  "str_of (Raised cls msg) = msg"

fun float_nonzero :: "pyfloat \<Rightarrow> bool" where
  \<comment> \<open>a decimal literal reads as 0.0 exactly when it is at most \<open>2 ^ -1075\<close> in size\<close>
  "float_nonzero (Finite m e) =
     (if 0 \<le> e then m \<noteq> 0 else 10 ^ nat (- e) < \<bar>m\<bar> * 2 ^ 1075)"
| "float_nonzero (Infinite neg) = True"
| "float_nonzero NaN = True"

fun truthy :: "pyval \<Rightarrow> bool" where
  \<comment> \<open>\<open>bool(v)\<close>, as \<open>if v\<close>, \<open>while v\<close>, \<open>and\<close> and \<open>not\<close> test it\<close>
  "truthy PNone = False"
| "truthy (PBool b) = b"
| "truthy (PInt i) = (i \<noteq> 0)"
| "truthy (PFloat x) = float_nonzero x"
| "truthy (PStr s) = (s \<noteq> [])"
| "truthy (PList xs) = (xs \<noteq> [])"
| "truthy (PDict d) = (d \<noteq> [])"

fun py_get :: "pyval \<Rightarrow> string \<Rightarrow> pyval \<Rightarrow> error + pyval" where
  \<comment> \<open>\<open>obj.get(key, default)\<close>: only a dict has the method\<close>
  "py_get (PDict d) k dflt = Inr (case map_of d k of None \<Rightarrow> dflt | Some v \<Rightarrow> v)"
| "py_get v k dflt = Inl (Raised ''AttributeError'' ''object has no attribute get'')"

fun py_getitem :: "pyval \<Rightarrow> string \<Rightarrow> error + pyval" where
  \<comment> \<open>\<open>obj[key]\<close> for a string key\<close>
  "py_getitem (PDict d) k =
     (case map_of d k of None \<Rightarrow> Inl (Raised ''KeyError'' k) | Some v \<Rightarrow> Inr v)"
| "py_getitem v k = Inl (Raised ''TypeError'' ''indices must be integers'')"

section \<open>Library functions the program calls\<close>

text \<open>
  The functions of the standard library and of the third-party packages are parameters of
  the model: each takes its argument and returns a value or raises. The theorems hold for
  every behaviour of them, unless a hypothesis says what one of them returns on a
  particular input.
\<close>

record frame =
  \<comment> \<open>what pandas computes from one table\<close>
  shape :: pyval
  columns :: pyval
  head :: pyval
  numeric_columns :: pyval
  statistics :: pyval
  data :: pyval

record library =
  json_loads :: "string \<Rightarrow> error + pyval"
  py_int :: "string \<Rightarrow> error + int"
  py_float :: "string \<Rightarrow> error + pyfloat"
  json_dumps :: "pyval \<Rightarrow> error + string"
  decode_utf8 :: "string \<Rightarrow> error + string"
  pdf_page_texts :: "string \<Rightarrow> error + pyval list"
  read_csv :: "string \<Rightarrow> error + frame"
  read_excel :: "string \<Rightarrow> error + (string \<times> frame) list"

section \<open>\<open>QuizSolver.extract_final_answer\<close>\<close>

definition final_answer_re :: regex where
  \<comment> \<open>\<^verbatim>\<open>FINAL_ANSWER:\s*(.+?)(?:\n|$)\<close>\<close>
  "final_answer_re =
     cats [lit ''FINAL_ANSWER:'', Star WS, Group (LazyPlus Dot),
           Alt (Atom (Lit CHR ''\<newline>'')) Eos]"

definition final_answer_flags :: flags where
  \<comment> \<open>\<open>re.IGNORECASE | re.DOTALL\<close>\<close>
  "final_answer_flags = \<lparr>ignorecase = True, dotall = True\<rparr>"

definition last_line :: "string \<Rightarrow> error + string" where
  \<comment> \<open>the \<open>else\<close> branch: the last line that is not blank, or the stripped text\<close>
  "last_line response =
     (let lines = filter (\<lambda>l. l \<noteq> []) (map strip (split_on CHR ''\<newline>'' (strip response)))
      in if lines \<noteq> [] then
           (case rev lines of
              [] \<Rightarrow> Inl (Raised ''IndexError'' ''list index out of range'')
            | l # _ \<Rightarrow> Inr l)
         else Inr (strip response))"

definition captured_answer :: "string \<Rightarrow> error + string" where
  "captured_answer response =
     (case re_search final_answer_flags final_answer_re response of
        Some g \<Rightarrow>
          (case g of
             None \<Rightarrow> Inl (Raised ''AttributeError'' ''NoneType has no attribute strip'')
           | Some a \<Rightarrow> Inr (strip a))
      | None \<Rightarrow> last_line response)"

definition parse_number :: "library \<Rightarrow> string \<Rightarrow> error + pyval" where
  \<comment> \<open>the second \<open>try\<close> block\<close>
  "parse_number lib answer =
     (if py_in ''.'' answer
      then (case py_float lib answer of Inl e \<Rightarrow> Inl e | Inr x \<Rightarrow> Inr (PFloat x))
      else (case py_int lib answer of Inl e \<Rightarrow> Inl e | Inr i \<Rightarrow> Inr (PInt i)))"

definition classify_answer :: "library \<Rightarrow> string \<Rightarrow> pyval" where
  "classify_answer lib answer =
     (case json_loads lib answer of
        Inr v \<Rightarrow> v
      | Inl _ \<Rightarrow>
          (case parse_number lib answer of
             Inr v \<Rightarrow> v
           | Inl _ \<Rightarrow>
               if lower answer \<in> set [''true'', ''false'']
               then PBool (lower answer = ''true'')
               else PStr answer))"

definition extract_final_answer :: "library \<Rightarrow> string \<Rightarrow> error + pyval" where
  "extract_final_answer lib response =
     (case captured_answer response of
        Inl e \<Rightarrow> Inl e
      | Inr answer \<Rightarrow> Inr (classify_answer lib answer))"

section \<open>\<open>DataProcessor\<close>\<close>

definition detect_file_type :: "string \<Rightarrow> string" where
  "detect_file_type url =
     (let url_lower = lower url
      in if py_in ''.pdf'' url_lower then ''pdf''
         else if py_in ''.csv'' url_lower then ''csv''
         else if py_in ''.xlsx'' url_lower \<or> py_in ''.xls'' url_lower then ''xlsx''
         else if py_in ''.json'' url_lower then ''json''
         else if py_in ''.txt'' url_lower then ''txt''
         else ''unknown'')"

definition error_summary :: "string \<Rightarrow> pyval" where
  \<comment> \<open>\<^verbatim>\<open>{"error": msg}\<close>\<close>
  "error_summary msg = PDict [(''error'', PStr msg)]"

fun numbered_pages :: "int \<Rightarrow> pyval list \<Rightarrow> pyval list" where
  \<comment> \<open>the loop over \<open>enumerate(pdf_reader.pages, 1)\<close>\<close>
  "numbered_pages n [] = []"
| "numbered_pages n (t # ts) =
     PDict [(''page'', PInt n), (''text'', t)] # numbered_pages (n + 1) ts"

definition process_pdf :: "library \<Rightarrow> string \<Rightarrow> pyval" where
  "process_pdf lib content =
     (case pdf_page_texts lib content of
        Inl e \<Rightarrow> error_summary (str_of e)
      | Inr texts \<Rightarrow>
          PDict [(''type'', PStr ''pdf''),
                 (''num_pages'', PInt (int (length texts))),
                 (''pages'', PList (numbered_pages 1 texts))])"

definition process_csv :: "library \<Rightarrow> string \<Rightarrow> pyval" where
  "process_csv lib content =
     (case read_csv lib content of
        Inl e \<Rightarrow> error_summary (str_of e)
      | Inr df \<Rightarrow>
          PDict [(''type'', PStr ''csv''),
                 (''shape'', shape df),
                 (''columns'', columns df),
                 (''head'', head df),
                 (''summary'', PDict [(''numeric_columns'', numeric_columns df),
                                      (''statistics'', statistics df)]),
                 (''data'', data df)])"

fun excel_sheets :: "(string \<times> frame) list \<Rightarrow> (string \<times> pyval) list \<Rightarrow> (string \<times> pyval) list" where
  \<comment> \<open>the loop \<open>result["sheets"][sheet_name] = {...}\<close>\<close>
  "excel_sheets [] acc = acc"
| "excel_sheets ((sheet_name, df) # rest) acc =
     excel_sheets rest
       (AList.update sheet_name
          (PDict [(''shape'', shape df), (''columns'', columns df),
                  (''head'', head df), (''data'', data df)]) acc)"

definition process_excel :: "library \<Rightarrow> string \<Rightarrow> pyval" where
  "process_excel lib content =
     (case read_excel lib content of
        Inl e \<Rightarrow> error_summary (str_of e)
      | Inr sheets \<Rightarrow>
          PDict [(''type'', PStr ''excel''), (''sheets'', PDict (excel_sheets sheets []))])"

definition process_json :: "library \<Rightarrow> string \<Rightarrow> pyval" where
  "process_json lib content =
     (case decode_utf8 lib content of
        Inl e \<Rightarrow> error_summary (str_of e)
      | Inr s \<Rightarrow>
          (case json_loads lib s of
             Inl e \<Rightarrow> error_summary (str_of e)
           | Inr d \<Rightarrow> PDict [(''type'', PStr ''json''), (''data'', d)]))"

definition process_text :: "library \<Rightarrow> string \<Rightarrow> pyval" where
  "process_text lib content =
     (case decode_utf8 lib content of
        Inl e \<Rightarrow> error_summary (str_of e)
      | Inr s \<Rightarrow>
          PDict [(''type'', PStr ''text''),
                 (''content'', PStr s),
                 (''lines'', PInt (int (length (split_on CHR ''\<newline>'' s))))])"

definition process_one :: "library \<Rightarrow> string \<Rightarrow> string \<Rightarrow> error + pyval" where
  \<comment> \<open>the body of the \<open>try\<close> in \<open>process_files\<close>; nothing in it raises, since every
      \<open>process_*\<close> catches its own exceptions\<close>
  "process_one lib url content =
     (let file_type = detect_file_type url
      in if file_type = ''pdf'' then Inr (process_pdf lib content)
         else if file_type = ''csv'' then Inr (process_csv lib content)
         else if file_type = ''xlsx'' then Inr (process_excel lib content)
         else if file_type = ''json'' then Inr (process_json lib content)
         else if file_type = ''txt'' then Inr (process_text lib content)
         else Inr (error_summary ''Unknown file type''))"

definition summarise :: "library \<Rightarrow> string \<Rightarrow> string \<Rightarrow> pyval" where
  \<comment> \<open>one pass of the loop of \<open>process_files\<close>: the \<open>try\<close> with its \<open>except\<close>\<close>
  "summarise lib url content =
     (case process_one lib url content of
        Inr summary \<Rightarrow> summary
      | Inl e \<Rightarrow> error_summary (str_of e))"

fun process_files_from :: "library \<Rightarrow> (string \<times> string) list \<Rightarrow> (string \<times> pyval) list \<Rightarrow> (string \<times> pyval) list" where
  "process_files_from lib [] results = results"
| "process_files_from lib ((url, content) # rest) results =
     process_files_from lib rest (AList.update url (summarise lib url content) results)"

definition process_files :: "library \<Rightarrow> (string \<times> string) list \<Rightarrow> (string \<times> pyval) list" where
  "process_files lib file_contents = process_files_from lib file_contents []"

section \<open>The outside world\<close>

text \<open>
  The browser, the HTTP client and the language model are parameters as well. Each call
  carries the number of the loop pass that makes it (and a download its position in the
  list of links), so the world may answer the same request differently each time.
\<close>

record link =
  href :: string
  link_text :: string

record page =
  text_content :: string
  html_content :: string
  anchors :: "link list"

record http_response =
  status_failure :: "error option"
    \<comment> \<open>what \<open>raise_for_status()\<close> raises, if the status is not a success\<close>
  resp_content :: string
  resp_json :: "error + pyval"
    \<comment> \<open>what \<open>json()\<close> returns or raises\<close>

record world =
  render :: "nat \<Rightarrow> pyval \<Rightarrow> error + page"
  http_get :: "nat \<Rightarrow> nat \<Rightarrow> string \<Rightarrow> error + http_response"
  http_post :: "nat \<Rightarrow> string \<Rightarrow> pyval \<Rightarrow> error + http_response"
  complete :: "nat \<Rightarrow> string \<Rightarrow> error + string"

record quiz_solver =
  email :: string
  secret :: string

section \<open>\<open>QuizSolver\<close>\<close>

record question_data =
  question :: string
  html :: string
  links :: "link list"
  submit_url :: "string option"

definition extract_question :: "world \<Rightarrow> nat \<Rightarrow> pyval \<Rightarrow> error + question_data" where
  "extract_question w n url =
     (case render w n url of
        Inl e \<Rightarrow> Inl e
      | Inr p \<Rightarrow>
          Inr \<lparr>question = text_content p, html = html_content p, links = anchors p,
               submit_url = extract_submit_url (text_content p)\<rparr>)"

definition download_file :: "world \<Rightarrow> nat \<Rightarrow> nat \<Rightarrow> string \<Rightarrow> error + string" where
  "download_file w n i url =
     (case http_get w n i url of
        Inl e \<Rightarrow> Inl e
      | Inr response \<Rightarrow>
          (case status_failure response of
             Some e \<Rightarrow> Inl e
           | None \<Rightarrow> Inr (resp_content response)))"

definition wanted :: "string \<Rightarrow> bool" where
  \<comment> \<open>\<^verbatim>\<open>any(ext in link['href'].lower() for ext in [...])\<close>\<close>
  "wanted h = list_ex (\<lambda>ext. py_in ext (lower h)) [''.pdf'', ''.csv'', ''.xlsx'', ''.json'', ''.txt'']"

fun download_links :: "world \<Rightarrow> nat \<Rightarrow> nat \<Rightarrow> link list \<Rightarrow> (string \<times> string) list \<Rightarrow> (string \<times> string) list" where
  \<comment> \<open>the loop that fills \<open>file_contents\<close>: a failed download is logged and skipped\<close>
  "download_links w n i [] file_contents = file_contents"
| "download_links w n i (l # ls) file_contents =
     download_links w n (Suc i) ls
       (if wanted (href l)
        then (case download_file w n i (href l) of
                Inr content \<Rightarrow> AList.update (href l) content file_contents
              | Inl e \<Rightarrow> file_contents)
        else file_contents)"

definition link_lines :: "link list \<Rightarrow> string" where
  "link_lines ls = concat (map (\<lambda>l. ''- '' @ link_text l @ '': '' @ href l @ ''\<newline>'') ls)"

definition instructions :: string where
  "instructions =
     ''\<newline>Analyze this question and provide ONLY the final answer in the appropriate format:\<newline>'' @
     ''- For numbers: return just the number (e.g., 12345)\<newline>'' @
     ''- For text: return just the text without quotes\<newline>'' @
     ''- For boolean: return true or false\<newline>'' @
     ''- For JSON objects: return valid JSON\<newline>'' @
     ''- For images/files: return base64 data URI\<newline>'' @
     ''\<newline>Think step by step but end with '' @ [CHR 0x22] @ ''FINAL_ANSWER:'' @ [CHR 0x22] @
     '' followed by just the answer.\<newline>''"

definition base_context :: "string \<Rightarrow> link list \<Rightarrow> string" where
  "base_context question_text ls =
     ''You are solving a data analysis quiz. Here'' @ [CHR 0x27] @ ''s the question:\<newline>\<newline>'' @
     question_text @ ''\<newline>\<newline>'' @
     (if ls \<noteq> [] then ''\<newline>Available links/files:\<newline>'' @ link_lines ls else []) @
     instructions"

definition processed_context :: "library \<Rightarrow> (string \<times> string) list \<Rightarrow> error + string" where
  \<comment> \<open>what is appended to the context when files were downloaded\<close>
  "processed_context lib file_contents =
     (if file_contents \<noteq> [] then
        (case json_dumps lib (PDict (process_files lib file_contents)) of
           Inl e \<Rightarrow> Inl e
         | Inr s \<Rightarrow> Inr (''\<newline>\<newline>Processed file data:\<newline>'' @ take 5000 s))
      else Inr [])"

definition solve_question :: "library \<Rightarrow> world \<Rightarrow> nat \<Rightarrow> question_data \<Rightarrow> error + pyval" where
  "solve_question lib w n question_data =
     (let context = base_context (question question_data) (links question_data);
          file_contents = download_links w n 0 (links question_data) []
      in case processed_context lib file_contents of
           Inl e \<Rightarrow> Inl e
         | Inr extra \<Rightarrow>
             (case complete w n (context @ extra) of
                Inl e \<Rightarrow> Inl e
              | Inr response_text \<Rightarrow> extract_final_answer lib response_text))"

definition payload :: "quiz_solver \<Rightarrow> pyval \<Rightarrow> pyval \<Rightarrow> pyval" where
  "payload self quiz_url answer =
     PDict [(''email'', PStr (email self)), (''secret'', PStr (secret self)),
            (''url'', quiz_url), (''answer'', answer)]"

definition submit_answer :: "world \<Rightarrow> quiz_solver \<Rightarrow> nat \<Rightarrow> string \<Rightarrow> pyval \<Rightarrow> pyval \<Rightarrow> error + pyval" where
  "submit_answer w self n submit_to quiz_url answer =
     (case http_post w n submit_to (payload self quiz_url answer) of
        Inl e \<Rightarrow> Inl e
      | Inr response \<Rightarrow>
          (case status_failure response of
             Some e \<Rightarrow> Inl e
           | None \<Rightarrow> resp_json response))"

datatype flow = Break | Continue pyval
  \<comment> \<open>how a pass of the loop ends: \<open>break\<close>, or on to the next pass with a new \<open>current_url\<close>\<close>

definition step_record :: "pyval \<Rightarrow> string \<Rightarrow> pyval \<Rightarrow> pyval \<Rightarrow> pyval \<Rightarrow> pyval" where
  "step_record url q answer correct reason =
     PDict [(''url'', url), (''question'', PStr (take 200 q)), (''answer'', answer),
            (''correct'', correct), (''reason'', reason)]"

definition error_record :: "pyval \<Rightarrow> error \<Rightarrow> pyval" where
  "error_record url e = PDict [(''url'', url), (''error'', PStr (str_of e))]"

definition next_url :: "pyval \<Rightarrow> error + flow" where
  \<comment> \<open>the \<open>if\<close>/\<open>elif\<close>/\<open>else\<close> after the append\<close>
  "next_url response =
     (case py_get response ''correct'' PNone of
        Inl e \<Rightarrow> Inl e
      | Inr c \<Rightarrow>
          (case py_get response ''url'' PNone of
             Inl e \<Rightarrow> Inl e
           | Inr u \<Rightarrow>
               if truthy c \<and> truthy u then
                 (case py_getitem response ''url'' of Inl e \<Rightarrow> Inl e | Inr v \<Rightarrow> Inr (Continue v))
               else if \<not> truthy c \<and> truthy u then
                 (case py_getitem response ''url'' of Inl e \<Rightarrow> Inl e | Inr v \<Rightarrow> Inr (Continue v))
               else Inr Break))"

definition try_body :: "library \<Rightarrow> world \<Rightarrow> quiz_solver \<Rightarrow> nat \<Rightarrow> pyval \<Rightarrow> pyval list \<Rightarrow> pyval list \<times> (error + flow)" where
  \<comment> \<open>the \<open>try\<close> block of one pass: the list of results it leaves, and how it ends\<close>
  "try_body lib w self n current_url results =
     (case extract_question w n current_url of
        Inl e \<Rightarrow> (results, Inl e)
      | Inr question_data \<Rightarrow>
     (case solve_question lib w n question_data of
        Inl e \<Rightarrow> (results, Inl e)
      | Inr answer \<Rightarrow>
     (case submit_url question_data of
        None \<Rightarrow> (results, Inr Break)
      | Some su \<Rightarrow>
     if su = [] then (results, Inr Break) else
     (case submit_answer w self n su current_url answer of
        Inl e \<Rightarrow> (results, Inl e)
      | Inr response \<Rightarrow>
     (case py_get response ''correct'' (PBool False) of
        Inl e \<Rightarrow> (results, Inl e)
      | Inr correct \<Rightarrow>
     (case py_get response ''reason'' PNone of
        Inl e \<Rightarrow> (results, Inl e)
      | Inr reason \<Rightarrow>
          (results @ [step_record current_url (question question_data) answer correct reason],
           next_url response)))))))"

record chain_state =
  current_url :: pyval
  results :: "pyval list"
  iteration :: nat

definition max_iterations :: nat where
  "max_iterations = 20"

definition loop_pass :: "library \<Rightarrow> world \<Rightarrow> quiz_solver \<Rightarrow> chain_state \<Rightarrow> chain_state \<times> bool" where
  \<comment> \<open>one pass of the \<open>while\<close> loop; the flag says whether the loop goes on\<close>
  "loop_pass lib w self st =
     (let n = iteration st + 1
      in case try_body lib w self n (current_url st) (results st) of
           (rs, Inr (Continue v)) \<Rightarrow> (\<lparr>current_url = v, results = rs, iteration = n\<rparr>, True)
         | (rs, Inr Break) \<Rightarrow> (\<lparr>current_url = current_url st, results = rs, iteration = n\<rparr>, False)
         | (rs, Inl e) \<Rightarrow>
             (\<lparr>current_url = current_url st,
               results = rs @ [error_record (current_url st) e], iteration = n\<rparr>, False))"

function chain_loop :: "library \<Rightarrow> world \<Rightarrow> quiz_solver \<Rightarrow> chain_state \<Rightarrow> chain_state" where
  "chain_loop lib w self st =
     (if truthy (current_url st) \<and> iteration st < max_iterations then
        (case loop_pass lib w self st of
           (st', True) \<Rightarrow> chain_loop lib w self st'
         | (st', False) \<Rightarrow> st')
      else st)"
  by pat_completeness auto

definition chain_result :: "pyval list \<Rightarrow> pyval" where
  \<comment> \<open>\<^verbatim>\<open>{"total_solved": len(results), "results": results}\<close>\<close>
  "chain_result rs = PDict [(''total_solved'', PInt (int (length rs))), (''results'', PList rs)]"
termination chain_loop
  by (relation "measure (\<lambda>(lib, w, self, st). max_iterations - iteration st)")
     (auto simp: loop_pass_def Let_def split: prod.splits sum.splits flow.splits)

declare chain_loop.simps [simp del]

definition initial_state :: "string \<Rightarrow> chain_state" where
  \<comment> \<open>the local variables before the loop\<close>
  "initial_state start_url = \<lparr>current_url = PStr start_url, results = [], iteration = 0\<rparr>"

definition solve_quiz_chain :: "library \<Rightarrow> world \<Rightarrow> quiz_solver \<Rightarrow> string \<Rightarrow> pyval" where
  "solve_quiz_chain lib w self start_url =
     chain_result (results (chain_loop lib w self (initial_state start_url)))"

section \<open>Reference behaviour of the library and of mock worlds\<close>

text \<open>
  For concrete runs the parameters need values. \<open>ref_int\<close>, \<open>ref_float\<close> and
  \<open>ref_json_loads\<close> follow CPython's \<open>int\<close>, \<open>float\<close> and \<open>json.loads\<close> on texts
  over the code points 0 to 255 (numbers of fewer than 4300 digits, \<open>\u\<close> escapes below
  256). The other library functions and the worlds are the mocks a test would inject.
\<close>

definition is_digit :: "char \<Rightarrow> bool" where
  "is_digit c = (48 \<le> (of_char c :: nat) \<and> (of_char c :: nat) \<le> 57)"

definition digits_value :: "string \<Rightarrow> int" where
  "digits_value ds = foldl (\<lambda>a c. 10 * a + (int (of_char c) - 48)) 0 ds"

fun digits_more :: "string \<Rightarrow> string \<times> string" where
  \<comment> \<open>\<open>(["_"] digit)*\<close>: the digits read and the input left\<close>
  "digits_more [] = ([], [])"
| "digits_more [c] = (if is_digit c then ([c], []) else ([], [c]))"
| "digits_more (c # d # cs) =
     (if is_digit c then (case digits_more (d # cs) of (ds, r) \<Rightarrow> (c # ds, r))
      else if c = CHR ''_'' \<and> is_digit d then (case digits_more cs of (ds, r) \<Rightarrow> (d # ds, r))
      else ([], c # d # cs))"

definition digitpart :: "string \<Rightarrow> (string \<times> string) option" where
  \<comment> \<open>\<open>digit (["_"] digit)*\<close>\<close>
  "digitpart s =
     (case s of
        [] \<Rightarrow> None
      | c # cs \<Rightarrow> if is_digit c then (case digits_more cs of (ds, r) \<Rightarrow> Some (c # ds, r)) else None)"

definition split_sign :: "string \<Rightarrow> bool \<times> string" where
  "split_sign s =
     (case s of
        [] \<Rightarrow> (False, [])
      | c # cs \<Rightarrow> if c = CHR ''-'' then (True, cs) else if c = CHR ''+'' then (False, cs) else (False, s))"

definition ref_int :: "string \<Rightarrow> error + int" where
  "ref_int s =
     (case split_sign (strip s) of (neg, u) \<Rightarrow>
        (case digitpart u of
           Some (ds, []) \<Rightarrow> Inr (if neg then - digits_value ds else digits_value ds)
         | _ \<Rightarrow> Inl (Raised ''ValueError'' ''invalid literal for int() with base 10'')))"

definition exponent_part :: "string \<Rightarrow> (int \<times> string) option" where
  \<comment> \<open>an optional exponent: its value (0 when there is none) and the input left\<close>
  "exponent_part s =
     (case s of
        [] \<Rightarrow> Some (0, [])
      | c # cs \<Rightarrow>
          if c = CHR ''e'' \<or> c = CHR ''E'' then
            (case split_sign cs of (neg, u) \<Rightarrow>
               (case digitpart u of
                  None \<Rightarrow> None
                | Some (ds, r) \<Rightarrow> Some (if neg then - digits_value ds else digits_value ds, r)))
          else Some (0, s))"

definition float_number :: "string \<Rightarrow> (int \<times> int) option" where
  \<comment> \<open>\<open>(digitpart ["." [digitpart]] | "." digitpart) [exponent]\<close>, the whole input\<close>
  "float_number s =
     (let whole = (case digitpart s of None \<Rightarrow> ([], s) | Some p \<Rightarrow> p);
          frac = (case snd whole of
                    [] \<Rightarrow> Some ([], [])
                  | c # cs \<Rightarrow>
                      if c = CHR ''.'' then
                        (case digitpart cs of
                           None \<Rightarrow> if fst whole = [] then None else Some ([], cs)
                         | Some p \<Rightarrow> Some p)
                      else if fst whole = [] then None else Some ([], c # cs))
      in case frac of
           None \<Rightarrow> None
         | Some (fs, r) \<Rightarrow>
             (case exponent_part r of
                Some (ex, []) \<Rightarrow> Some (digits_value (fst whole @ fs), ex - int (length fs))
              | _ \<Rightarrow> None))"

definition ref_float :: "string \<Rightarrow> error + pyfloat" where
  "ref_float s =
     (case split_sign (strip s) of (neg, u) \<Rightarrow>
        if lower u = ''inf'' \<or> lower u = ''infinity'' then Inr (Infinite neg)
        else if lower u = ''nan'' then Inr NaN
        else (case float_number u of
                Some (m, e) \<Rightarrow> Inr (Finite (if neg then - m else m) e)
              | None \<Rightarrow> Inl (Raised ''ValueError'' ''could not convert string to float'')))"

definition json_ws :: "string \<Rightarrow> string" where
  "json_ws s = dropWhile (\<lambda>c. c \<in> set [CHR '' '', CHR 0x09, CHR ''\<newline>'', CHR 0x0D]) s"

fun plain_digits :: "string \<Rightarrow> string \<times> string" where
  "plain_digits [] = ([], [])"
| "plain_digits (c # cs) =
     (if is_digit c then (case plain_digits cs of (ds, r) \<Rightarrow> (c # ds, r)) else ([], c # cs))"

definition json_int_part :: "string \<Rightarrow> (string \<times> string) option" where
  \<comment> \<open>\<open>0|[1-9][0-9]*\<close>\<close>
  "json_int_part s =
     (case s of
        [] \<Rightarrow> None
      | c # cs \<Rightarrow>
          if c = CHR ''0'' then Some ([c], cs)
          else if is_digit c then (case plain_digits cs of (ds, r) \<Rightarrow> Some (c # ds, r))
          else None)"

definition json_frac :: "string \<Rightarrow> string \<times> string" where
  \<comment> \<open>\<open>(\.[0-9]+)?\<close>\<close>
  "json_frac s =
     (case s of
        [] \<Rightarrow> ([], [])
      | c # cs \<Rightarrow>
          if c = CHR ''.'' then
            (case plain_digits cs of (ds, r) \<Rightarrow> if ds = [] then ([], s) else (ds, r))
          else ([], s))"

definition json_exp :: "string \<Rightarrow> int option \<times> string" where
  \<comment> \<open>\<open>([eE][-+]?[0-9]+)?\<close>\<close>
  "json_exp s =
     (case s of
        [] \<Rightarrow> (None, [])
      | c # cs \<Rightarrow>
          if c = CHR ''e'' \<or> c = CHR ''E'' then
            (case split_sign cs of (neg, u) \<Rightarrow>
               (case plain_digits u of (ds, r) \<Rightarrow>
                  if ds = [] then (None, s)
                  else (Some (if neg then - digits_value ds else digits_value ds), r)))
          else (None, s))"

definition json_number :: "string \<Rightarrow> (pyval \<times> string) option" where
  "json_number s =
     (let neg = (case s of [] \<Rightarrow> False | c # _ \<Rightarrow> c = CHR ''-'');
          u = (if neg then tl s else s)
      in case json_int_part u of
           None \<Rightarrow> None
         | Some (ds, r) \<Rightarrow>
             (case json_frac r of (fs, r1) \<Rightarrow>
                (case json_exp r1 of (ex, r2) \<Rightarrow>
                   if fs = [] \<and> ex = None
                   then Some (PInt (if neg then - digits_value ds else digits_value ds), r2)
                   else Some (PFloat (Finite (if neg then - digits_value (ds @ fs) else digits_value (ds @ fs))
                                        ((case ex of None \<Rightarrow> 0 | Some x \<Rightarrow> x) - int (length fs))), r2))))"

definition hex_value :: "char \<Rightarrow> nat option" where
  "hex_value c =
     (let n = (of_char c :: nat)
      in if 48 \<le> n \<and> n \<le> 57 then Some (n - 48)
         else if 65 \<le> n \<and> n \<le> 70 then Some (n - 55)
         else if 97 \<le> n \<and> n \<le> 102 then Some (n - 87)
         else None)"

definition json_escape :: "string \<Rightarrow> (char \<times> string) option" where
  \<comment> \<open>the input after a backslash\<close>
  "json_escape s =
     (case s of
        [] \<Rightarrow> None
      | c # cs \<Rightarrow>
          if c = CHR 0x22 \<or> c = CHR 0x5C \<or> c = CHR ''/'' then Some (c, cs)
          else if c = CHR ''b'' then Some (CHR 0x08, cs)
          else if c = CHR ''f'' then Some (CHR 0x0C, cs)
          else if c = CHR ''n'' then Some (CHR ''\<newline>'', cs)
          else if c = CHR ''r'' then Some (CHR 0x0D, cs)
          else if c = CHR ''t'' then Some (CHR 0x09, cs)
          else if c = CHR ''u'' then
            (case cs of
               a # b # x # y # r \<Rightarrow>
                 (case (hex_value a, hex_value b, hex_value x, hex_value y) of
                    (Some 0, Some 0, Some h, Some l) \<Rightarrow> Some (char_of (16 * h + l), r)
                  | _ \<Rightarrow> None)
             | _ \<Rightarrow> None)
          else None)"

fun json_string :: "nat \<Rightarrow> string \<Rightarrow> (string \<times> string) option" where
  \<comment> \<open>the input after the opening quote: the text and the input after the closing quote;
      the first argument bounds the number of characters read\<close>
  "json_string 0 s = None"
| "json_string (Suc n) [] = None"
| "json_string (Suc n) (c # cs) =
     (if c = CHR 0x22 then Some ([], cs)
      else if c = CHR 0x5C then
        (case json_escape cs of
           None \<Rightarrow> None
         | Some (x, r) \<Rightarrow>
             (case json_string n r of None \<Rightarrow> None | Some (t, r') \<Rightarrow> Some (x # t, r')))
      else if (of_char c :: nat) < 32 then None
      else (case json_string n cs of None \<Rightarrow> None | Some (t, r') \<Rightarrow> Some (c # t, r')))"

definition json_literal :: "string \<Rightarrow> (pyval \<times> string) option" where
  \<comment> \<open>the scanner's cases other than string, object and array, in its order\<close>
  "json_literal s =
     (if prefix ''null'' s then Some (PNone, drop 4 s)
      else if prefix ''true'' s then Some (PBool True, drop 4 s)
      else if prefix ''false'' s then Some (PBool False, drop 5 s)
      else (case json_number s of
              Some p \<Rightarrow> Some p
            | None \<Rightarrow>
                if prefix ''NaN'' s then Some (PFloat NaN, drop 3 s)
                else if prefix ''Infinity'' s then Some (PFloat (Infinite False), drop 8 s)
                else if prefix ''-Infinity'' s then Some (PFloat (Infinite True), drop 9 s)
                else None))"

fun json_value :: "nat \<Rightarrow> string \<Rightarrow> (pyval \<times> string) option"
  and json_items :: "nat \<Rightarrow> string \<Rightarrow> pyval list \<Rightarrow> (pyval list \<times> string) option"
  and json_members :: "nat \<Rightarrow> string \<Rightarrow> (string \<times> pyval) list \<Rightarrow> ((string \<times> pyval) list \<times> string) option"
  where
  "json_value 0 s = None"
| "json_value (Suc n) [] = None"
| "json_value (Suc n) (c # cs) =
     (if c = CHR 0x22 then
        (case json_string (Suc (length cs)) cs of
           None \<Rightarrow> None
         | Some (t, r) \<Rightarrow> Some (PStr t, r))
      else if c = CHR ''{'' then
        (case json_ws cs of
           [] \<Rightarrow> None
         | x # r \<Rightarrow> if x = CHR ''}'' then Some (PDict [], r)
                     else (case json_members n (x # r) [] of
                             None \<Rightarrow> None
                           | Some (d, r') \<Rightarrow> Some (PDict d, r')))
      else if c = CHR ''['' then
        (case json_ws cs of
           [] \<Rightarrow> None
         | x # r \<Rightarrow> if x = CHR '']'' then Some (PList [], r)
                     else (case json_items n (x # r) [] of
                             None \<Rightarrow> None
                           | Some (vs, r') \<Rightarrow> Some (PList vs, r')))
      else json_literal (c # cs))"
| "json_items 0 s acc = None"
| "json_items (Suc n) s acc =
     (case json_value n s of
        None \<Rightarrow> None
      | Some (v, r) \<Rightarrow>
          (case json_ws r of
             [] \<Rightarrow> None
           | x # r' \<Rightarrow>
               if x = CHR '']'' then Some (acc @ [v], r')
               else if x = CHR '','' then json_items n (json_ws r') (acc @ [v])
               else None))"
| "json_members 0 s acc = None"
| "json_members (Suc n) [] acc = None"
| "json_members (Suc n) (q # cs) acc =
     (if q \<noteq> CHR 0x22 then None
      else (case json_string (Suc (length cs)) cs of
              None \<Rightarrow> None
            | Some (k, r) \<Rightarrow>
                (case json_ws r of
                   [] \<Rightarrow> None
                 | x # r1 \<Rightarrow>
                     if x \<noteq> CHR '':'' then None
                     else (case json_value n (json_ws r1) of
                             None \<Rightarrow> None
                           | Some (v, r2) \<Rightarrow>
                               (case json_ws r2 of
                                  [] \<Rightarrow> None
                                | y # r3 \<Rightarrow>
                                    if y = CHR ''}'' then Some (AList.update k v acc, r3)
                                    else if y = CHR '','' then json_members n (json_ws r3) (AList.update k v acc)
                                    else None)))))"

definition ref_json_loads :: "string \<Rightarrow> error + pyval" where
  "ref_json_loads s =
     (case json_value (Suc (Suc (length (s @ s)))) (json_ws s) of
        None \<Rightarrow> Inl (Raised ''JSONDecodeError'' ''Expecting value'')
      | Some (v, r) \<Rightarrow>
          if json_ws r = [] then Inr v else Inl (Raised ''JSONDecodeError'' ''Extra data''))"

definition unavailable :: "'a \<Rightarrow> error + 'b" where
  "unavailable x = Inl (Raised ''RuntimeError'' ''not available'')"

definition ref_lib :: library where
  "ref_lib =
     \<lparr>json_loads = ref_json_loads, py_int = ref_int, py_float = ref_float,
      json_dumps = unavailable, decode_utf8 = unavailable, pdf_page_texts = unavailable,
      read_csv = unavailable, read_excel = unavailable\<rparr>"

definition page_with :: "string \<Rightarrow> page" where
  "page_with t = \<lparr>text_content = t, html_content = [], anchors = []\<rparr>"

definition json_response :: "pyval \<Rightarrow> http_response" where
  \<comment> \<open>a response with a success status whose body decodes to the given value\<close>
  "json_response v = \<lparr>status_failure = None, resp_content = [], resp_json = Inr v\<rparr>"

definition quiz_text :: string where
  "quiz_text = ''What is 2+2? Post your answer to https://quiz.test/submit''"

definition quiz_world :: "pyval \<Rightarrow> world" where
  \<comment> \<open>every page is the same quiz, the model answers 4, and the submission endpoint
      answers with the given JSON value\<close>
  "quiz_world v =
     \<lparr>render = (\<lambda>n url. Inr (page_with quiz_text)),
      http_get = (\<lambda>n i url. unavailable url),
      http_post = (\<lambda>n url p. Inr (json_response v)),
      complete = (\<lambda>n context. Inr ''2+2 is 4.\<newline>FINAL_ANSWER: 4'')\<rparr>"

definition endless_world :: world where
  \<comment> \<open>a submission endpoint that always names a next page\<close>
  "endless_world =
     quiz_world (PDict [(''correct'', PBool False), (''url'', PStr ''https://quiz.test/next'')])"

definition down_world :: world where
  \<comment> \<open>a renderer that fails on every page\<close>
  "down_world = (quiz_world PNone)\<lparr>render := (\<lambda>n url. Inl (Raised ''TimeoutError'' ''Timeout 30000ms exceeded''))\<rparr>"

definition flaky_world :: world where
  \<comment> \<open>the first answer is judged wrong and the second page does not load\<close>
  "flaky_world =
     endless_world\<lparr>render := (\<lambda>n url. if n = 1 then Inr (page_with quiz_text)
                                       else Inl (Raised ''TimeoutError'' ''Timeout 30000ms exceeded''))\<rparr>"

definition student :: quiz_solver where
  "student = \<lparr>email = ''student@example.com'', secret = ''s3cret''\<rparr>"

definition quiz_question :: question_data where
  "quiz_question = \<lparr>question = quiz_text, html = [], links = [],
                     submit_url = Some ''https://quiz.test/submit''\<rparr>"

definition json_a1 :: string where
  \<comment> \<open>the text \<^verbatim>\<open>{"a":1}\<close>\<close>
  "json_a1 = [CHR ''{'', CHR 0x22, CHR ''a'', CHR 0x22, CHR '':'', CHR ''1'', CHR ''}'']"





section \<open>What the two searches find, written directly\<close>

text \<open>
  \<open>marker_at\<close>, \<open>capture_after\<close> and \<open>first_capture\<close> say without the matcher what
  the search for the final-answer pattern finds; the theorems below prove that they agree
  with \<open>re_search\<close> on the pattern.
\<close>

definition marker_at :: "string \<Rightarrow> bool" where
  \<comment> \<open>the text starts with \<open>FINAL_ANSWER:\<close> in any mix of upper and lower case\<close>
  "marker_at s \<longleftrightarrow> 13 \<le> length s \<and> lower (take 13 s) = ''final_answer:''"

definition capture_after :: "string \<Rightarrow> string option" where
  \<comment> \<open>group 1 for the text after the marker: the rest of the line that holds the first
      character that is not whitespace; if only whitespace follows, its last character\<close>
  "capture_after r =
     (if dropWhile py_isspace r \<noteq> [] then
        Some (takeWhile (\<lambda>c. c \<noteq> CHR ''\<newline>'') (dropWhile py_isspace r))
      else if r \<noteq> [] then Some [last r]
      else None)"

fun first_capture :: "string \<Rightarrow> string option" where
  "first_capture [] = None"
| "first_capture (x # xs) =
     (if marker_at (x # xs) then
        (case capture_after (drop 13 (x # xs)) of
           Some c \<Rightarrow> Some c
         | None \<Rightarrow> first_capture xs)
      else first_capture xs)"

definition line_end :: regex where
  \<comment> \<open>\<^verbatim>\<open>(?:\n|$)\<close>\<close>
  "line_end = Cat (Alt (Atom (Lit CHR ''\<newline>'')) Eos) Eps"

definition answer_group :: regex where
  "answer_group = Cat (Group (LazyPlus Dot)) line_end"

fun lazy_from :: "flags \<Rightarrow> string \<Rightarrow> string list \<Rightarrow> (string option \<times> string) list" where
  \<comment> \<open>the matches of the group followed by the line end, for each input the lazy
      repetition may leave\<close>
  "lazy_from f s [] = []"
| "lazy_from f s (t # ts) =
     map (\<lambda>n. (Some (take (length s - length t) s), snd n)) (rmatch f line_end t) @ lazy_from f s ts"

definition first_marker :: "string \<Rightarrow> string \<Rightarrow> string \<Rightarrow> bool" where
  \<comment> \<open>\<open>response\<close> is \<open>pre\<close> followed by \<open>rest\<close>, \<open>rest\<close> starts with the marker, and no
      marker starts inside \<open>pre\<close>\<close>
  "first_marker response pre rest \<longleftrightarrow>
     response = pre @ rest \<and> marker_at rest \<and> (\<forall>i < length pre. \<not> marker_at (drop i response))"

section \<open>Properties of the submit-URL extractor\<close>

lemma prefix_append_drop:
  "prefix (a @ b) s \<longleftrightarrow> prefix a s \<and> prefix b (drop (length a) s)"
  by (auto simp: prefix_def)

lemma rmatch_Cat_nil: "rmatch f r1 s = [] \<Longrightarrow> rmatch f (Cat r1 r2) s = []"
  by simp

lemma later_group_None [simp]: "later_group None g = g"
  by (cases g) (simp_all add: later_group_def)

lemma rmatch_Cat_single:
  "rmatch f r1 s = [(None, s1)] \<Longrightarrow> rmatch f (Cat r1 r2) s = rmatch f r2 s1"
  by simp

lemma rmatch_lit:
  "rmatch no_flags (lit w) s = (if prefix w s then [(None, drop (length w) s)] else [])"
proof (induction w arbitrary: s)
  case Nil
  then show ?case by (simp add: lit_def cats_def)
next
  case (Cons c w)
  have l: "lit (c # w) = Cat (Atom (Lit c)) (lit w)"
    by (simp add: lit_def cats_def)
  show ?case
  proof (cases s)
    case Nil
    then show ?thesis by (simp add: l plus_of_def)
  next
    case (Cons x xs)
    then show ?thesis using Cons.IH [of xs]
      by (simp add: l plus_of_def no_flags_def)
  qed
qed

lemma star_greedy_hd: "\<exists>ms. star_greedy p s = dropWhile p s # ms"
  by (induction s) auto

lemma atom_url_char: "atom_match f (NotSet [SSpace, SChar CHR '')'']) = url_char"
  by (auto simp: url_char_def fun_eq_iff)

lemma rmatch_url_tail:
  "rmatch f (Cat (Plus (NotSet [SSpace, SChar CHR '')''])) Eps) b =
     map (Pair None) (plus_of star_greedy url_char b)"
  by (simp add: atom_url_char comp_def)

lemma plus_greedy_nil: "takeWhile p b = [] \<Longrightarrow> plus_of star_greedy p b = []"
  by (cases b) (auto simp: plus_of_def split: if_splits)

lemma plus_greedy_hd:
  "takeWhile p b \<noteq> [] \<Longrightarrow> \<exists>ms. plus_of star_greedy p b = dropWhile p b # ms"
proof (cases b)
  case Nil
  moreover assume "takeWhile p b \<noteq> []"
  ultimately show ?thesis by simp
next
  case (Cons x xs)
  assume "takeWhile p b \<noteq> []"
  with Cons have px: "p x" by (auto split: if_splits)
  from star_greedy_hd [of p xs] obtain ms where "star_greedy p xs = dropWhile p xs # ms" ..
  with Cons px show ?thesis by (simp add: plus_of_def)
qed

lemma rmatch_url_tail':
  "rmatch f url_tail b = map (Pair None) (plus_of star_greedy url_char b)"
  unfolding url_tail_def by (rule rmatch_url_tail)

lemma scheme_re_unfold:
  "scheme_re = Cat (lit ''http'') (Cat (Opt (Lit CHR ''s'')) (Cat (lit ''://'') url_tail))"
  by (simp add: scheme_re_def cats_def url_tail_def)

lemma rmatch_Opt_s:
  "rmatch no_flags (Cat (Opt (Lit CHR ''s'')) r) s =
     (case s of [] \<Rightarrow> [] | x # xs \<Rightarrow> if x = CHR ''s'' then rmatch no_flags r xs else []) @ rmatch no_flags r s"
  by (cases s) (simp_all add: plus_of_def no_flags_def)

lemma rmatch_lit_Cat:
  "rmatch no_flags (Cat (lit w) r) s = (if prefix w s then rmatch no_flags r (drop (length w) s) else [])"
  by (simp add: rmatch_lit)

lemma rmatch_scheme_https:
  "rmatch no_flags scheme_re (''https://'' @ b) = map (Pair None) (plus_of star_greedy url_char b)"
  by (simp add: scheme_re_unfold rmatch_lit_Cat rmatch_Opt_s rmatch_url_tail' del: rmatch.simps)

lemma rmatch_scheme_http:
  "rmatch no_flags scheme_re (''http://'' @ b) = map (Pair None) (plus_of star_greedy url_char b)"
  by (simp add: scheme_re_unfold rmatch_lit_Cat rmatch_Opt_s rmatch_url_tail' del: rmatch.simps)

lemma rmatch_scheme_none:
  assumes "\<not> prefix ''https://'' r" "\<not> prefix ''http://'' r"
  shows "rmatch no_flags scheme_re r = []"
proof (cases "prefix ''http'' r")
  case False
  then show ?thesis by (simp add: scheme_re_unfold rmatch_lit_Cat del: rmatch.simps)
next
  case True
  then obtain t where r: "r = ''http'' @ t" by (auto simp: prefix_def)
  from assms have n1: "\<not> prefix ''s://'' t" and n2: "\<not> prefix ''://'' t"
    by (simp_all add: r)
  show ?thesis
  proof (cases t)
    case Nil
    then show ?thesis by (simp add: r scheme_re_unfold rmatch_lit_Cat rmatch_Opt_s del: rmatch.simps)
  next
    case (Cons x xs)
    with n1 n2 show ?thesis
      by (auto simp add: r scheme_re_unfold rmatch_lit_Cat rmatch_Opt_s simp del: rmatch.simps)
  qed
qed

lemma take_scheme_run:
  "take (length (w @ b) - length (dropWhile p b)) (w @ b) = w @ takeWhile p b"
proof -
  have b: "length b = length (takeWhile p b) + length (dropWhile p b)"
    by (metis length_append takeWhile_dropWhile_id)
  then have "length (w @ b) - length (dropWhile p b) = length w + length (takeWhile p b)"
    by simp
  moreover have "take (length (takeWhile p b)) b = takeWhile p b"
    by (metis append_eq_conv_conj takeWhile_dropWhile_id)
  ultimately show ?thesis
    by simp
qed

lemma url_after_https: "url_after (''https://'' @ b) = url_body ''https://'' b"
  by (simp add: url_after_def strip_pre_def)

lemma url_after_http: "url_after (''http://'' @ b) = url_body ''http://'' b"
  by (simp add: url_after_def strip_pre_def)

lemma url_after_neither:
  "\<not> prefix ''https://'' r \<Longrightarrow> \<not> prefix ''http://'' r \<Longrightarrow> url_after r = None"
  by (simp add: url_after_def strip_pre_def)

lemma rmatch_group_scheme:
  "rmatch no_flags (Group scheme_re) (scheme @ b) =
     map (\<lambda>(g, s'). (Some (take (length (scheme @ b) - length s') (scheme @ b)), s'))
       (rmatch no_flags scheme_re (scheme @ b))"
  by simp

lemma group_url_body:
  assumes m: "rmatch no_flags scheme_re (scheme @ b) = map (Pair None) (plus_of star_greedy url_char b)"
  shows "case url_body scheme b of
           None \<Rightarrow> rmatch no_flags (Group scheme_re) (scheme @ b) = []
         | Some u \<Rightarrow> (\<exists>rest ms. rmatch no_flags (Group scheme_re) (scheme @ b) = (Some u, rest) # ms)"
proof (cases "takeWhile url_char b = []")
  case True
  then show ?thesis by (simp add: url_body_def m plus_greedy_nil)
next
  case False
  from plus_greedy_hd [OF False] obtain ms
    where ms: "plus_of star_greedy url_char b = dropWhile url_char b # ms" ..
  have "take (length (scheme @ b) - length (dropWhile url_char b)) (scheme @ b)
          = scheme @ takeWhile url_char b"
    by (rule take_scheme_run)
  then have "\<exists>ms'. rmatch no_flags (Group scheme_re) (scheme @ b)
          = (Some (scheme @ takeWhile url_char b), dropWhile url_char b) # ms'"
    unfolding rmatch_group_scheme m ms by simp
  with False show ?thesis by (auto simp add: url_body_def simp del: rmatch.simps)
qed

lemma rmatch_group_after:
  "case url_after r of
     None \<Rightarrow> rmatch no_flags (Group scheme_re) r = []
   | Some u \<Rightarrow> (\<exists>rest ms. rmatch no_flags (Group scheme_re) r = (Some u, rest) # ms)"
proof (cases "prefix ''https://'' r")
  case True
  then obtain b where b: "r = ''https://'' @ b" by (auto simp: prefix_def)
  show ?thesis unfolding b url_after_https
    by (rule group_url_body) (rule rmatch_scheme_https)
next
  case False
  note nhttps = this
  show ?thesis
  proof (cases "prefix ''http://'' r")
    case True
    then obtain b where b: "r = ''http://'' @ b" by (auto simp: prefix_def)
    show ?thesis unfolding b url_after_http
      by (rule group_url_body) (rule rmatch_scheme_http)
  next
    case False
    with nhttps show ?thesis
      by (simp add: url_after_neither rmatch_scheme_none)
  qed
qed

lemma submit_url_re_unfold: "submit_url_re = Cat (lit submit_phrase) (Group scheme_re)"
  by (simp add: submit_url_re_def scheme_re_def submit_phrase_def)

lemma rmatch_submit_here:
  "case url_here s of
     None \<Rightarrow> rmatch no_flags submit_url_re s = []
   | Some u \<Rightarrow> (\<exists>rest ms. rmatch no_flags submit_url_re s = (Some u, rest) # ms)"
proof (cases "prefix submit_phrase s")
  case False
  then show ?thesis
    by (simp add: url_here_def strip_pre_def submit_url_re_unfold rmatch_lit_Cat del: rmatch.simps)
next
  case True
  then have "rmatch no_flags submit_url_re s = rmatch no_flags (Group scheme_re) (drop (length submit_phrase) s)"
    by (simp add: submit_url_re_unfold rmatch_lit_Cat del: rmatch.simps)
  moreover from True have "url_here s = url_after (drop (length submit_phrase) s)"
    by (simp add: url_here_def strip_pre_def)
  ultimately show ?thesis
    using rmatch_group_after [of "drop (length submit_phrase) s"] by (simp only:)
qed

lemma extract_submit_url_first_url: "extract_submit_url text = first_url text"
proof -
  have "(case re_search no_flags submit_url_re text of Some g \<Rightarrow> g | None \<Rightarrow> None) = first_url text"
  proof (induction "text")
    case Nil
    show ?case using rmatch_submit_here [of "[]"]
      by (auto split: option.splits)
  next
    case (Cons x xs)
    show ?case using rmatch_submit_here [of "x # xs"] Cons.IH
      by (auto split: option.splits)
  qed
  then show ?thesis by (simp add: extract_submit_url_def)
qed

lemma takeWhile_run:
  "\<forall>c \<in> set body. p c \<Longrightarrow> post = [] \<or> \<not> p (hd post) \<Longrightarrow> takeWhile p (body @ post) = body"
  by (cases post) (auto simp: takeWhile_append2)

lemma url_here_occurrence:
  "url_here s = Some u \<longleftrightarrow> submit_occurrence pre u (pre @ s)"
proof
  assume h: "url_here s = Some u"
  then have p: "prefix submit_phrase s"
    by (simp add: url_here_def strip_pre_def split: if_splits)
  then obtain r where s: "s = submit_phrase @ r" by (auto simp: prefix_def)
  from h have a: "url_after r = Some u"
    by (simp add: url_here_def strip_pre_def s)
  have "\<exists>scheme b. (scheme = ''http://'' \<or> scheme = ''https://'') \<and> r = scheme @ b \<and> url_body scheme b = Some u"
  proof (cases "prefix ''https://'' r")
    case True
    then obtain b where "r = ''https://'' @ b" by (auto simp: prefix_def)
    with a url_after_https [of b] show ?thesis by auto
  next
    case False
    with a have "prefix ''http://'' r"
      using url_after_neither [of r] by auto
    then obtain b where "r = ''http://'' @ b" by (auto simp: prefix_def)
    with a url_after_http [of b] show ?thesis by auto
  qed
  then obtain scheme b where sc: "scheme = ''http://'' \<or> scheme = ''https://''"
    and r: "r = scheme @ b" and ub: "url_body scheme b = Some u" by blast
  from ub have ne: "takeWhile url_char b \<noteq> []" and u: "u = scheme @ takeWhile url_char b"
    by (auto simp: url_body_def split: if_splits)
  have all: "\<forall>c \<in> set (takeWhile url_char b). \<not> py_isspace c \<and> c \<noteq> CHR '')''"
    by (auto dest: set_takeWhileD simp: url_char_def)
  have post: "dropWhile url_char b = [] \<or> py_isspace (hd (dropWhile url_char b)) \<or> hd (dropWhile url_char b) = CHR '')''"
    using hd_dropWhile [of url_char b] by (auto simp: url_char_def)
  have "pre @ s = pre @ ''Post your answer to '' @ u @ dropWhile url_char b"
    by (simp add: s r u submit_phrase_def)
  with sc u ne all post show "submit_occurrence pre u (pre @ s)"
    unfolding submit_occurrence_def by blast
next
  assume "submit_occurrence pre u (pre @ s)"
  then obtain scheme body post where sc: "scheme = ''http://'' \<or> scheme = ''https://''"
    and u: "u = scheme @ body" and ne: "body \<noteq> []"
    and all: "\<forall>c \<in> set body. url_char c"
    and post: "post = [] \<or> \<not> url_char (hd post)"
    and t: "pre @ s = pre @ ''Post your answer to '' @ u @ post"
    unfolding submit_occurrence_def url_char_def by blast
  from t have s: "s = submit_phrase @ scheme @ (body @ post)"
    by (simp add: u submit_phrase_def)
  have tw: "takeWhile url_char (body @ post) = body"
    using all post by (rule takeWhile_run)
  have "url_after (scheme @ (body @ post)) = Some u"
    using sc url_after_https [of "body @ post"] url_after_http [of "body @ post"]
    by (auto simp: url_body_def tw ne u)
  then show "url_here s = Some u"
    by (simp add: url_here_def strip_pre_def s)
qed

lemma submit_occurrence_suffix:
  "submit_occurrence pre u text \<Longrightarrow> \<exists>s. text = pre @ s"
  unfolding submit_occurrence_def by blast

lemma first_url_Some:
  "first_url text = Some u \<longleftrightarrow>
     (\<exists>pre s. text = pre @ s \<and> url_here s = Some u \<and>
        (\<forall>pre' s'. text = pre' @ s' \<and> length pre' < length pre \<longrightarrow> url_here s' = None))"
proof (induction "text")
  case Nil
  then show ?case by auto
next
  case (Cons x xs)
  show ?case
  proof (cases "url_here (x # xs)")
    case (Some v)
    have "(\<exists>pre s. x # xs = pre @ s \<and> url_here s = Some u \<and>
        (\<forall>pre' s'. x # xs = pre' @ s' \<and> length pre' < length pre \<longrightarrow> url_here s' = None)) \<longleftrightarrow> v = u"
    proof
      assume "\<exists>pre s. x # xs = pre @ s \<and> url_here s = Some u \<and>
        (\<forall>pre' s'. x # xs = pre' @ s' \<and> length pre' < length pre \<longrightarrow> url_here s' = None)"
      then obtain pre s where e: "x # xs = pre @ s" and h: "url_here s = Some u"
        and m: "\<forall>pre' s'. x # xs = pre' @ s' \<and> length pre' < length pre \<longrightarrow> url_here s' = None"
        by blast
      have "pre = []"
      proof (rule ccontr)
        assume "pre \<noteq> []"
        then have "length [] < length pre" by simp
        with m [rule_format, of "[]" "x # xs"] Some show False by simp
      qed
      with e h Some show "v = u" by simp
    next
      assume "v = u"
      with Some have "x # xs = [] @ (x # xs) \<and> url_here (x # xs) = Some u \<and>
        (\<forall>pre' s'. x # xs = pre' @ s' \<and> length pre' < length ([]::string) \<longrightarrow> url_here s' = None)"
        by simp
      then show "\<exists>pre s. x # xs = pre @ s \<and> url_here s = Some u \<and>
        (\<forall>pre' s'. x # xs = pre' @ s' \<and> length pre' < length pre \<longrightarrow> url_here s' = None)"
        by blast
    qed
    with Some show ?thesis by simp
  next
    case None
    have "(\<exists>pre s. x # xs = pre @ s \<and> url_here s = Some u \<and>
        (\<forall>pre' s'. x # xs = pre' @ s' \<and> length pre' < length pre \<longrightarrow> url_here s' = None)) \<longleftrightarrow>
        (\<exists>pre s. xs = pre @ s \<and> url_here s = Some u \<and>
        (\<forall>pre' s'. xs = pre' @ s' \<and> length pre' < length pre \<longrightarrow> url_here s' = None))"
      (is "?L \<longleftrightarrow> ?R")
    proof
      assume ?L
      then obtain pre s where e: "x # xs = pre @ s" and h: "url_here s = Some u"
        and m: "\<forall>pre' s'. x # xs = pre' @ s' \<and> length pre' < length pre \<longrightarrow> url_here s' = None"
        by blast
      from e h None obtain pre0 where p: "pre = x # pre0" and e0: "xs = pre0 @ s"
        by (cases pre) auto
      have "\<forall>pre' s'. xs = pre' @ s' \<and> length pre' < length pre0 \<longrightarrow> url_here s' = None"
      proof (intro allI impI)
        fix pre' s' assume "xs = pre' @ s' \<and> length pre' < length pre0"
        then have "x # xs = (x # pre') @ s' \<and> length (x # pre') < length pre"
          by (simp add: p)
        with m show "url_here s' = None" by blast
      qed
      with e0 h show ?R by blast
    next
      assume ?R
      then obtain pre s where e: "xs = pre @ s" and h: "url_here s = Some u"
        and m: "\<forall>pre' s'. xs = pre' @ s' \<and> length pre' < length pre \<longrightarrow> url_here s' = None"
        by blast
      have "\<forall>pre' s'. x # xs = pre' @ s' \<and> length pre' < length (x # pre) \<longrightarrow> url_here s' = None"
      proof (intro allI impI)
        fix pre' s' assume a: "x # xs = pre' @ s' \<and> length pre' < length (x # pre)"
        show "url_here s' = None"
        proof (cases pre')
          case Nil
          with a None show ?thesis by simp
        next
          case (Cons y ys)
          with a have "xs = ys @ s' \<and> length ys < length pre" by simp
          with m show ?thesis by blast
        qed
      qed
      moreover from e have "x # xs = (x # pre) @ s" by simp
      ultimately show ?L using h by blast
    qed
    with None Cons.IH show ?thesis by simp
  qed
qed

lemma first_url_None:
  "first_url text = None \<longleftrightarrow> (\<forall>pre s. text = pre @ s \<longrightarrow> url_here s = None)"
proof (induction "text")
  case Nil
  have "(\<forall>pre s. ([]::string) = pre @ s \<longrightarrow> url_here s = None) \<longleftrightarrow> url_here [] = None"
    by simp
  then show ?case by (simp only: first_url.simps)
next
  case (Cons x xs)
  show ?case
  proof (cases "url_here (x # xs)")
    case (Some v)
    then have fu: "first_url (x # xs) \<noteq> None" by simp
    have "\<not> (\<forall>pre s. x # xs = pre @ s \<longrightarrow> url_here s = None)"
    proof
      assume a: "\<forall>pre s. x # xs = pre @ s \<longrightarrow> url_here s = None"
      from a [rule_format, of "[]" "x # xs"] have "url_here (x # xs) = None" by simp
      with Some show False by simp
    qed
    with fu show ?thesis by (simp only:)
  next
    case None
    then have fu: "first_url (x # xs) = first_url xs" by simp
    have eq: "(\<forall>pre s. x # xs = pre @ s \<longrightarrow> url_here s = None) \<longleftrightarrow> (\<forall>pre s. xs = pre @ s \<longrightarrow> url_here s = None)"
      (is "?L \<longleftrightarrow> ?R")
    proof
      assume l: ?L
      show ?R
      proof (intro allI impI)
        fix pre s assume "xs = pre @ s"
        then have "x # xs = (x # pre) @ s" by simp
        with l show "url_here s = None" by blast
      qed
    next
      assume r: ?R
      show ?L
      proof (intro allI impI)
        fix pre s assume a: "x # xs = pre @ s"
        show "url_here s = None"
        proof (cases pre)
          case Nil
          with a None show ?thesis by simp
        next
          case (Cons y ys)
          with a have "xs = ys @ s" by simp
          with r show ?thesis by blast
        qed
      qed
    qed
    show ?thesis by (simp only: fu eq Cons.IH)
  qed
qed

text \<open>
  C3 (as the code has it). \<open>extract_submit_url\<close> returns the URL of the first occurrence
  of \<open>Post your answer to <URL>\<close>, matched with the case as written: the URL is
  \<open>http://\<close> or \<open>https://\<close> followed by the maximal run, at least one character long, of
  characters that are neither whitespace nor a closing parenthesis. Any other trailing
  punctuation belongs to the returned value. It returns \<open>None\<close> exactly when the text
  has no such occurrence.
\<close>

theorem extract_submit_url_first_occurrence:
  "(extract_submit_url text = Some u \<longleftrightarrow>
      (\<exists>pre. submit_occurrence pre u text \<and>
         (\<forall>pre' u'. submit_occurrence pre' u' text \<longrightarrow> length pre \<le> length pre')))
   \<and> (extract_submit_url text = None \<longleftrightarrow> (\<forall>pre u. \<not> submit_occurrence pre u text))"
proof
  show "extract_submit_url text = Some u \<longleftrightarrow>
      (\<exists>pre. submit_occurrence pre u text \<and>
         (\<forall>pre' u'. submit_occurrence pre' u' text \<longrightarrow> length pre \<le> length pre'))"
    (is "?A \<longleftrightarrow> ?B")
  proof
    assume ?A
    then obtain pre s where e: "text = pre @ s" and h: "url_here s = Some u"
      and m: "\<forall>pre' s'. text = pre' @ s' \<and> length pre' < length pre \<longrightarrow> url_here s' = None"
      unfolding extract_submit_url_first_url first_url_Some by blast
    have occ: "submit_occurrence pre u text"
      using h url_here_occurrence [of s u pre] e by simp
    have "\<forall>pre' u'. submit_occurrence pre' u' text \<longrightarrow> length pre \<le> length pre'"
    proof (intro allI impI)
      fix pre' u' assume o: "submit_occurrence pre' u' text"
      then obtain s' where e': "text = pre' @ s'" using submit_occurrence_suffix by blast
      with o have "url_here s' = Some u'" using url_here_occurrence [of s' u' pre'] by simp
      with m e' show "length pre \<le> length pre'" by (metis not_le option.distinct(1))
    qed
    with occ show ?B by blast
  next
    assume ?B
    then obtain pre where occ: "submit_occurrence pre u text"
      and m: "\<forall>pre' u'. submit_occurrence pre' u' text \<longrightarrow> length pre \<le> length pre'"
      by blast
    from occ obtain s where e: "text = pre @ s" using submit_occurrence_suffix by blast
    with occ have h: "url_here s = Some u" using url_here_occurrence [of s u pre] by simp
    have "\<forall>pre' s'. text = pre' @ s' \<and> length pre' < length pre \<longrightarrow> url_here s' = None"
    proof (intro allI impI)
      fix pre' s' assume a: "text = pre' @ s' \<and> length pre' < length pre"
      show "url_here s' = None"
      proof (cases "url_here s'")
        case None
        then show ?thesis .
      next
        case (Some u')
        with a have "submit_occurrence pre' u' text"
          using url_here_occurrence [of s' u' pre'] by simp
        with m a show ?thesis by force
      qed
    qed
    with e h show ?A unfolding extract_submit_url_first_url first_url_Some by blast
  qed
next
  show "extract_submit_url text = None \<longleftrightarrow> (\<forall>pre u. \<not> submit_occurrence pre u text)"
    (is "?A \<longleftrightarrow> ?B")
  proof
    assume a: ?A
    show ?B
    proof (intro allI notI)
      fix pre u assume o: "submit_occurrence pre u text"
      then obtain s where e: "text = pre @ s" using submit_occurrence_suffix by blast
      with o have "url_here s = Some u" using url_here_occurrence [of s u pre] by simp
      with a e show False unfolding extract_submit_url_first_url first_url_None by force
    qed
  next
    assume b: ?B
    have "\<forall>pre s. text = pre @ s \<longrightarrow> url_here s = None"
    proof (intro allI impI)
      fix pre s assume e: "text = pre @ s"
      show "url_here s = None"
      proof (cases "url_here s")
        case None
        then show ?thesis .
      next
        case (Some u)
        with e have "submit_occurrence pre u text"
          using url_here_occurrence [of s u pre] by simp
        with b show ?thesis by blast
      qed
    qed
    then show ?A unfolding extract_submit_url_first_url first_url_None .
  qed
qed

theorem extract_submit_url_first_occurrence_witness:
  "\<exists>pre. submit_occurrence pre ''https://quiz.test/submit''
            ''What is 2+2? Post your answer to https://quiz.test/submit''"
proof -
  have "extract_submit_url ''What is 2+2? Post your answer to https://quiz.test/submit''
          = Some ''https://quiz.test/submit''"
    by code_simp
  with extract_submit_url_first_occurrence
         [of "''What is 2+2? Post your answer to https://quiz.test/submit''" "''https://quiz.test/submit''"]
  show ?thesis by blast
qed

text \<open>
  The phrase in lower case is not found, and a full stop after the URL is returned with
  it.
\<close>

theorem extract_submit_url_counterexample:
  "extract_submit_url ''post your answer to https://x.y/z'' = None
   \<and> extract_submit_url ''Post your answer to https://x.y/z.'' = Some ''https://x.y/z.''"
  by code_simp

section \<open>Properties of the chain driver\<close>

lemma py_get_Inr: "py_get v k d = Inr x \<Longrightarrow> \<exists>dd. v = PDict dd"
  by (cases v) simp_all

lemma next_url_dict:
  "next_url (PDict d) =
     Inr (case map_of d ''url'' of
            None \<Rightarrow> Break
          | Some u \<Rightarrow> if truthy u then Continue u else Break)"
  by (simp add: next_url_def split: option.splits)

lemma try_body_shape:
  assumes "try_body lib w self n u rs = (rs', out)"
  shows "rs' = rs \<or> (\<exists>r f. rs' = rs @ [r] \<and> out = Inr f)"
proof -
  have nx: "\<And>response c. py_get response ''correct'' (PBool False) = Inr c
              \<Longrightarrow> \<exists>f. next_url response = Inr f"
  proof -
    fix response c assume "py_get response ''correct'' (PBool False) = Inr c"
    then obtain dd where "response = PDict dd" using py_get_Inr by blast
    then show "\<exists>f. next_url response = Inr f" by (simp add: next_url_dict)
  qed
  from assms show ?thesis
    unfolding try_body_def
    by (auto split: sum.splits option.splits if_splits dest: nx)
qed

lemma loop_pass_iteration:
  "iteration (fst (loop_pass lib w self st)) = iteration st + 1"
  by (simp add: loop_pass_def Let_def split: prod.splits sum.splits flow.splits)

lemma loop_pass_results:
  "length (results (fst (loop_pass lib w self st))) \<le> length (results st) + 1"
proof -
  obtain rs out where t: "try_body lib w self (Suc (iteration st)) (current_url st) (results st) = (rs, out)"
    by (cases "try_body lib w self (Suc (iteration st)) (current_url st) (results st)")
  from try_body_shape [OF t] show ?thesis
    by (auto simp: loop_pass_def Let_def t split: sum.splits flow.splits)
qed

lemma chain_loop_invariant:
  "iteration st \<le> max_iterations \<Longrightarrow> length (results st) \<le> iteration st \<Longrightarrow>
     iteration (chain_loop lib w self st) \<le> max_iterations \<and>
     length (results (chain_loop lib w self st)) \<le> iteration (chain_loop lib w self st)"
proof (induction lib w self st rule: chain_loop.induct)
  case (1 lib w self st)
  show ?case
  proof (cases "truthy (current_url st) \<and> iteration st < max_iterations")
    case False
    then have "chain_loop lib w self st = st" by (subst chain_loop.simps) auto
    with "1.prems" show ?thesis by simp
  next
    case True
    obtain st' go where p: "loop_pass lib w self st = (st', go)"
      by (cases "loop_pass lib w self st")
    from loop_pass_iteration [of lib w self st] p have it: "iteration st' = iteration st + 1" by simp
    from loop_pass_results [of lib w self st] p have len: "length (results st') \<le> length (results st) + 1" by simp
    from it True have b: "iteration st' \<le> max_iterations" by simp
    from it len "1.prems" have l: "length (results st') \<le> iteration st'" by simp
    show ?thesis
    proof (cases go)
      case True
      then have gt: "go = True" by simp
      from True p \<open>truthy (current_url st) \<and> iteration st < max_iterations\<close>
      have "chain_loop lib w self st = chain_loop lib w self st'"
        by (subst chain_loop.simps) simp
      moreover from "1.IH" [OF \<open>truthy (current_url st) \<and> iteration st < max_iterations\<close> p [symmetric] gt b l]
      have "iteration (chain_loop lib w self st') \<le> max_iterations \<and>
            length (results (chain_loop lib w self st')) \<le> iteration (chain_loop lib w self st')" .
      ultimately show ?thesis by simp
    next
      case False
      with p \<open>truthy (current_url st) \<and> iteration st < max_iterations\<close>
      have "chain_loop lib w self st = st'"
        by (subst chain_loop.simps) simp
      with b l show ?thesis by simp
    qed
  qed
qed


lemma loop_pass_decoded:
  assumes q: "extract_question w (Suc (iteration st)) (current_url st) = Inr qd"
    and a: "solve_question lib w (Suc (iteration st)) qd = Inr a"
    and su: "submit_url qd = Some su" "su \<noteq> []"
    and r: "submit_answer w self (Suc (iteration st)) su (current_url st) a = Inr (PDict d)"
  shows "loop_pass lib w self st =
           (\<lparr>current_url = (case map_of d ''url'' of
                               None \<Rightarrow> current_url st
                             | Some u \<Rightarrow> if truthy u then u else current_url st),
              results = results st @
                [step_record (current_url st) (question qd) a
                   (case map_of d ''correct'' of None \<Rightarrow> PBool False | Some c \<Rightarrow> c)
                   (case map_of d ''reason'' of None \<Rightarrow> PNone | Some x \<Rightarrow> x)],
              iteration = Suc (iteration st)\<rparr>,
            case map_of d ''url'' of None \<Rightarrow> False | Some u \<Rightarrow> truthy u)"
proof -
  have t: "try_body lib w self (Suc (iteration st)) (current_url st) (results st) =
             (results st @
                [step_record (current_url st) (question qd) a
                   (case map_of d ''correct'' of None \<Rightarrow> PBool False | Some c \<Rightarrow> c)
                   (case map_of d ''reason'' of None \<Rightarrow> PNone | Some x \<Rightarrow> x)],
              next_url (PDict d))"
    by (simp add: try_body_def q a su r)
  show ?thesis
    by (simp add: loop_pass_def t next_url_dict split: option.splits)
qed

lemma loop_pass_failed:
  assumes "try_body lib w self (Suc (iteration st)) (current_url st) (results st) = (rs, Inl e)"
  shows "loop_pass lib w self st =
           (\<lparr>current_url = current_url st, results = rs @ [error_record (current_url st) e],
              iteration = Suc (iteration st)\<rparr>, False)"
  by (simp add: loop_pass_def assms)

lemma chain_loop_stop:
  "\<not> (truthy (current_url st) \<and> iteration st < max_iterations) \<Longrightarrow> chain_loop lib w self st = st"
  by (subst chain_loop.simps) auto

lemma chain_loop_break:
  "truthy (current_url st) \<Longrightarrow> iteration st < max_iterations \<Longrightarrow>
   loop_pass lib w self st = (st', False) \<Longrightarrow> chain_loop lib w self st = st'"
  by (subst chain_loop.simps) simp

lemma chain_loop_continue:
  "truthy (current_url st) \<Longrightarrow> iteration st < max_iterations \<Longrightarrow>
   loop_pass lib w self st = (st', True) \<Longrightarrow> chain_loop lib w self st = chain_loop lib w self st'"
  by (subst chain_loop.simps) simp

text \<open>
  C2. Whatever the library and the world do, each pass of the loop raises the iteration
  counter by exactly one, the loop ends with the counter at most 20, the list of results
  is never longer than the counter, and the list returned has at most 20 entries.
\<close>

theorem chain_at_most_20_iterations:
  "iteration (fst (loop_pass lib w self st)) = iteration st + 1
   \<and> iteration (chain_loop lib w self (initial_state start_url)) \<le> 20
   \<and> length (results (chain_loop lib w self (initial_state start_url)))
        \<le> iteration (chain_loop lib w self (initial_state start_url))
   \<and> (\<exists>rs. solve_quiz_chain lib w self start_url = chain_result rs \<and> length rs \<le> 20)"
proof -
  have inv: "iteration (chain_loop lib w self (initial_state start_url)) \<le> max_iterations \<and>
     length (results (chain_loop lib w self (initial_state start_url)))
       \<le> iteration (chain_loop lib w self (initial_state start_url))"
    by (rule chain_loop_invariant) (simp_all add: initial_state_def)
  then have "length (results (chain_loop lib w self (initial_state start_url))) \<le> 20"
    by (simp add: max_iterations_def)
  then have "\<exists>rs. solve_quiz_chain lib w self start_url = chain_result rs \<and> length rs \<le> 20"
    unfolding solve_quiz_chain_def by blast
  with inv loop_pass_iteration [of lib w self st] show ?thesis
    by (simp add: max_iterations_def)
qed

text \<open>
  C9. In the value returned by \<open>solve_quiz_chain\<close>, \<open>total_solved\<close> is the length of
  \<open>results\<close>: every appended record counts, records of wrong answers and error records
  included.
\<close>

theorem total_solved_counts_every_record:
  "\<exists>rs. py_getitem (solve_quiz_chain lib w self start_url) ''results'' = Inr (PList rs)
     \<and> py_getitem (solve_quiz_chain lib w self start_url) ''total_solved'' = Inr (PInt (int (length rs)))"
  by (simp add: solve_quiz_chain_def chain_result_def)

lemma chain_first_failure:
  assumes "start_url \<noteq> []" and "render w 1 (PStr start_url) = Inl e"
  shows "solve_quiz_chain lib w self start_url =
           PDict [(''total_solved'', PInt 1),
                  (''results'', PList [PDict [(''url'', PStr start_url), (''error'', PStr (str_of e))]])]"
proof -
  let ?st = "initial_state start_url"
  have t: "try_body lib w self (Suc (iteration ?st)) (current_url ?st) (results ?st) = ([], Inl e)"
    using assms(2) by (simp add: try_body_def extract_question_def initial_state_def)
  have "chain_loop lib w self ?st =
          \<lparr>current_url = current_url ?st, results = [] @ [error_record (current_url ?st) e],
            iteration = Suc (iteration ?st)\<rparr>"
    using assms(1)
    by (intro chain_loop_break loop_pass_failed t) (simp_all add: initial_state_def max_iterations_def)
  then show ?thesis
    by (simp add: solve_quiz_chain_def chain_result_def error_record_def initial_state_def)
qed

text \<open>
  C1 (as the code has it). When the first page extraction raises, the chain returns
  exactly one record, which carries the failed URL and the error message, and
  \<open>total_solved\<close> is 1: the error record is counted.
\<close>

theorem first_extraction_failure:
  assumes "start_url \<noteq> []" and "render w 1 (PStr start_url) = Inl e"
  shows "solve_quiz_chain lib w self start_url =
           PDict [(''total_solved'', PInt 1),
                  (''results'', PList [PDict [(''url'', PStr start_url), (''error'', PStr (str_of e))]])]"
  using assms by (rule chain_first_failure)

theorem first_extraction_failure_witness:
  "solve_quiz_chain ref_lib down_world student ''https://quiz.test/q1'' =
     PDict [(''total_solved'', PInt 1),
            (''results'', PList [PDict [(''url'', PStr ''https://quiz.test/q1''),
                                       (''error'', PStr ''Timeout 30000ms exceeded'')]])]"
  using first_extraction_failure
          [of "''https://quiz.test/q1''" down_world "Raised ''TimeoutError'' ''Timeout 30000ms exceeded''"
              ref_lib student]
  by (simp add: down_world_def quiz_world_def)

text \<open>
  With a renderer that fails on the first page, \<open>total_solved\<close> is 1 and not 0.
\<close>

theorem first_extraction_failure_counterexample:
  "py_getitem (solve_quiz_chain ref_lib down_world student ''https://quiz.test/q1'') ''total_solved''
     = Inr (PInt 1)
   \<and> py_getitem (solve_quiz_chain ref_lib down_world student ''https://quiz.test/q1'') ''total_solved''
     \<noteq> Inr (PInt 0)"
  using chain_first_failure
          [of "''https://quiz.test/q1''" down_world "Raised ''TimeoutError'' ''Timeout 30000ms exceeded''"
              ref_lib student]
  by (simp add: down_world_def quiz_world_def)

lemma quiz_text_submit_url: "extract_submit_url quiz_text = Some ''https://quiz.test/submit''"
  unfolding quiz_text_def by code_simp

lemma quiz_answer: "extract_final_answer ref_lib ''2+2 is 4.\<newline>FINAL_ANSWER: 4'' = Inr (PInt 4)"
  by code_simp

lemma quiz_world_sel [simp]:
  "render (quiz_world v) n url = Inr (page_with quiz_text)"
  "http_post (quiz_world v) n su p = Inr (json_response v)"
  "complete (quiz_world v) n c = Inr ''2+2 is 4.\<newline>FINAL_ANSWER: 4''"
  by (simp_all add: quiz_world_def)

lemma extract_question_page:
  "render w n url = Inr (page_with quiz_text) \<Longrightarrow> extract_question w n url = Inr quiz_question"
  by (simp add: extract_question_def page_with_def quiz_question_def quiz_text_submit_url)

lemma solve_question_quiz:
  "complete w n (base_context quiz_text []) = Inr ''2+2 is 4.\<newline>FINAL_ANSWER: 4''
   \<Longrightarrow> solve_question ref_lib w n quiz_question = Inr (PInt 4)"
  by (simp add: solve_question_def quiz_question_def processed_context_def quiz_answer)

lemma submit_answer_json:
  "http_post w n su (payload self url a) = Inr (json_response v) \<Longrightarrow> submit_answer w self n su url a = Inr v"
  by (simp add: submit_answer_def json_response_def)

lemma quiz_pass:
  assumes "render w (Suc (iteration st)) (current_url st) = Inr (page_with quiz_text)"
    and "complete w (Suc (iteration st)) (base_context quiz_text []) = Inr ''2+2 is 4.\<newline>FINAL_ANSWER: 4''"
    and "http_post w (Suc (iteration st)) ''https://quiz.test/submit'' (payload self (current_url st) (PInt 4))
           = Inr (json_response (PDict d))"
  shows "loop_pass ref_lib w self st =
           (\<lparr>current_url = (case map_of d ''url'' of
                               None \<Rightarrow> current_url st
                             | Some u \<Rightarrow> if truthy u then u else current_url st),
              results = results st @
                [step_record (current_url st) quiz_text (PInt 4)
                   (case map_of d ''correct'' of None \<Rightarrow> PBool False | Some c \<Rightarrow> c)
                   (case map_of d ''reason'' of None \<Rightarrow> PNone | Some x \<Rightarrow> x)],
              iteration = Suc (iteration st)\<rparr>,
            case map_of d ''url'' of None \<Rightarrow> False | Some u \<Rightarrow> truthy u)"
proof -
  have q: "question quiz_question = quiz_text" by (simp add: quiz_question_def)
  show ?thesis
    using loop_pass_decoded [of w st quiz_question ref_lib "PInt 4" "''https://quiz.test/submit''" self d]
          extract_question_page [OF assms(1)] solve_question_quiz [OF assms(2)]
          submit_answer_json [OF assms(3)]
    by (simp add: q) (simp add: quiz_question_def)
qed

lemma endless_pass:
  "loop_pass ref_lib endless_world student st =
     (\<lparr>current_url = PStr ''https://quiz.test/next'',
        results = results st @ [step_record (current_url st) quiz_text (PInt 4) (PBool False) PNone],
        iteration = Suc (iteration st)\<rparr>, True)"
  using quiz_pass [of endless_world st student
                      "[(''correct'', PBool False), (''url'', PStr ''https://quiz.test/next'')]"]
  by (simp add: endless_world_def)

lemma endless_run:
  "truthy (current_url st) \<Longrightarrow> iteration st \<le> 20 \<Longrightarrow> k = 20 - iteration st \<Longrightarrow>
     iteration (chain_loop ref_lib endless_world student st) = 20 \<and>
     length (results (chain_loop ref_lib endless_world student st)) = length (results st) + k"
proof (induction k arbitrary: st)
  case 0
  then have "chain_loop ref_lib endless_world student st = st"
    by (intro chain_loop_stop) (simp add: max_iterations_def)
  with 0 show ?case by simp
next
  case (Suc k)
  let ?st' = "\<lparr>current_url = PStr ''https://quiz.test/next'',
        results = results st @ [step_record (current_url st) quiz_text (PInt 4) (PBool False) PNone],
        iteration = Suc (iteration st)\<rparr>"
  from Suc.prems have lt: "iteration st < max_iterations" by (simp add: max_iterations_def)
  have c: "chain_loop ref_lib endless_world student st = chain_loop ref_lib endless_world student ?st'"
    using Suc.prems(1) lt endless_pass by (rule chain_loop_continue)
  have "iteration (chain_loop ref_lib endless_world student ?st') = 20 \<and>
     length (results (chain_loop ref_lib endless_world student ?st')) = length (results ?st') + k"
    using Suc.prems by (intro Suc.IH) simp_all
  with c show ?case by simp
qed

theorem chain_at_most_20_iterations_witness:
  "iteration (chain_loop ref_lib endless_world student (initial_state ''https://quiz.test/q1'')) = 20
   \<and> length (results (chain_loop ref_lib endless_world student (initial_state ''https://quiz.test/q1''))) = 20
   \<and> (\<exists>rs. solve_quiz_chain ref_lib endless_world student ''https://quiz.test/q1'' = chain_result rs
         \<and> length rs \<le> 20)"
  using chain_at_most_20_iterations
          [of ref_lib endless_world student "initial_state ''https://quiz.test/q1''" "''https://quiz.test/q1''"]
        endless_run [of "initial_state ''https://quiz.test/q1''" 20]
  by (simp add: initial_state_def)


lemma flaky_world_sel [simp]:
  "render flaky_world n url = (if n = 1 then Inr (page_with quiz_text)
                               else Inl (Raised ''TimeoutError'' ''Timeout 30000ms exceeded''))"
  "http_post flaky_world n su p =
     Inr (json_response (PDict [(''correct'', PBool False), (''url'', PStr ''https://quiz.test/next'')]))"
  "complete flaky_world n c = Inr ''2+2 is 4.\<newline>FINAL_ANSWER: 4''"
  by (simp_all add: flaky_world_def endless_world_def quiz_world_def)

lemma flaky_run:
  "results (chain_loop ref_lib flaky_world student (initial_state ''https://quiz.test/q1'')) =
     [step_record (PStr ''https://quiz.test/q1'') quiz_text (PInt 4) (PBool False) PNone,
      error_record (PStr ''https://quiz.test/next'') (Raised ''TimeoutError'' ''Timeout 30000ms exceeded'')]"
proof -
  let ?s0 = "initial_state ''https://quiz.test/q1''"
  let ?s1 = "\<lparr>current_url = PStr ''https://quiz.test/next'',
        results = [step_record (PStr ''https://quiz.test/q1'') quiz_text (PInt 4) (PBool False) PNone],
        iteration = Suc 0\<rparr>"
  let ?e = "Raised ''TimeoutError'' ''Timeout 30000ms exceeded''"
  have p1: "loop_pass ref_lib flaky_world student ?s0 = (?s1, True)"
    using quiz_pass [of flaky_world ?s0 student
                      "[(''correct'', PBool False), (''url'', PStr ''https://quiz.test/next'')]"]
    by (simp add: initial_state_def)
  have c1: "chain_loop ref_lib flaky_world student ?s0 = chain_loop ref_lib flaky_world student ?s1"
    by (rule chain_loop_continue [OF _ _ p1]) (simp_all add: initial_state_def max_iterations_def)
  have t2: "try_body ref_lib flaky_world student (Suc (iteration ?s1)) (current_url ?s1) (results ?s1)
              = (results ?s1, Inl ?e)"
    by (simp add: try_body_def extract_question_def)
  have c2: "chain_loop ref_lib flaky_world student ?s1 =
              \<lparr>current_url = current_url ?s1, results = results ?s1 @ [error_record (current_url ?s1) ?e],
                iteration = Suc (iteration ?s1)\<rparr>"
    by (intro chain_loop_break loop_pass_failed t2) (simp_all add: max_iterations_def)
  show ?thesis by (simp add: c1 c2)
qed

theorem total_solved_counts_every_record_witness:
  "py_getitem (solve_quiz_chain ref_lib flaky_world student ''https://quiz.test/q1'') ''results'' =
     Inr (PList [step_record (PStr ''https://quiz.test/q1'') quiz_text (PInt 4) (PBool False) PNone,
                 error_record (PStr ''https://quiz.test/next'')
                   (Raised ''TimeoutError'' ''Timeout 30000ms exceeded'')])
   \<and> py_getitem (solve_quiz_chain ref_lib flaky_world student ''https://quiz.test/q1'') ''total_solved'' =
     Inr (PInt 2)"
proof -
  let ?r = "solve_quiz_chain ref_lib flaky_world student ''https://quiz.test/q1''"
  have r: "py_getitem ?r ''results'' =
     Inr (PList [step_record (PStr ''https://quiz.test/q1'') quiz_text (PInt 4) (PBool False) PNone,
                 error_record (PStr ''https://quiz.test/next'')
                   (Raised ''TimeoutError'' ''Timeout 30000ms exceeded'')])"
    by (simp add: solve_quiz_chain_def chain_result_def flaky_run)
  from total_solved_counts_every_record [of ref_lib flaky_world student "''https://quiz.test/q1''"]
  obtain rs where "py_getitem ?r ''results'' = Inr (PList rs)"
    and "py_getitem ?r ''total_solved'' = Inr (PInt (int (length rs)))" by blast
  with r show ?thesis by simp
qed

text \<open>
  C7. In a pass whose submission response decodes to a dict, the next URL is the value of
  the response's \<open>url\<close> field whatever its \<open>correct\<close> field holds: a true \<open>url\<close> continues
  the loop with that value, a missing \<open>url\<close> ends the chain, and changing \<open>correct\<close> never
  changes the decision.
\<close>

theorem next_url_regardless_of_correct:
  assumes "truthy (current_url st)" and "iteration st < max_iterations"
    and "extract_question w (Suc (iteration st)) (current_url st) = Inr qd"
    and "solve_question lib w (Suc (iteration st)) qd = Inr a"
    and "submit_url qd = Some su" and "su \<noteq> []"
    and "submit_answer w self (Suc (iteration st)) su (current_url st) a = Inr (PDict d)"
  shows "(\<forall>u. map_of d ''url'' = Some u \<and> truthy u \<longrightarrow>
            snd (loop_pass lib w self st) = True \<and> current_url (fst (loop_pass lib w self st)) = u)
       \<and> (map_of d ''url'' = None \<longrightarrow>
            snd (loop_pass lib w self st) = False \<and>
            chain_loop lib w self st = fst (loop_pass lib w self st))
       \<and> (\<forall>c. next_url (PDict (AList.update ''correct'' c d)) = next_url (PDict d))"
proof -
  note p = loop_pass_decoded [OF assms(3) assms(4) assms(5) assms(6) assms(7)]
  have a: "\<forall>u. map_of d ''url'' = Some u \<and> truthy u \<longrightarrow>
            snd (loop_pass lib w self st) = True \<and> current_url (fst (loop_pass lib w self st)) = u"
    by (simp add: p)
  have b: "map_of d ''url'' = None \<longrightarrow>
            snd (loop_pass lib w self st) = False \<and>
            chain_loop lib w self st = fst (loop_pass lib w self st)"
  proof
    assume n: "map_of d ''url'' = None"
    then have f: "snd (loop_pass lib w self st) = False" by (simp add: p)
    then have "loop_pass lib w self st = (fst (loop_pass lib w self st), False)"
      by (metis prod.collapse)
    from chain_loop_break [OF assms(1) assms(2) this] f
    show "snd (loop_pass lib w self st) = False \<and>
            chain_loop lib w self st = fst (loop_pass lib w self st)" by simp
  qed
  have c: "\<forall>c. next_url (PDict (AList.update ''correct'' c d)) = next_url (PDict d)"
    by (simp add: next_url_dict update_conv')
  from a b c show ?thesis by blast
qed


lemma quiz_question_sel [simp]:
  "question quiz_question = quiz_text"
  "submit_url quiz_question = Some ''https://quiz.test/submit''"
  by (simp_all add: quiz_question_def)

theorem next_url_regardless_of_correct_witness:
  "snd (loop_pass ref_lib
          (quiz_world (PDict [(''correct'', PBool True), (''url'', PStr ''https://quiz.test/next'')]))
          student (initial_state ''https://quiz.test/q1'')) = True
   \<and> current_url (fst (loop_pass ref_lib
          (quiz_world (PDict [(''correct'', PBool True), (''url'', PStr ''https://quiz.test/next'')]))
          student (initial_state ''https://quiz.test/q1''))) = PStr ''https://quiz.test/next''
   \<and> snd (loop_pass ref_lib
          (quiz_world (PDict [(''correct'', PBool False), (''url'', PStr ''https://quiz.test/next'')]))
          student (initial_state ''https://quiz.test/q1'')) = True
   \<and> current_url (fst (loop_pass ref_lib
          (quiz_world (PDict [(''correct'', PBool False), (''url'', PStr ''https://quiz.test/next'')]))
          student (initial_state ''https://quiz.test/q1''))) = PStr ''https://quiz.test/next''"
proof -
  let ?st = "initial_state ''https://quiz.test/q1''"
  have h: "\<And>c. truthy (current_url ?st) \<and> iteration ?st < max_iterations
      \<and> extract_question (quiz_world (PDict [(''correct'', PBool c), (''url'', PStr ''https://quiz.test/next'')]))
           (Suc (iteration ?st)) (current_url ?st) = Inr quiz_question
      \<and> solve_question ref_lib (quiz_world (PDict [(''correct'', PBool c), (''url'', PStr ''https://quiz.test/next'')]))
           (Suc (iteration ?st)) quiz_question = Inr (PInt 4)
      \<and> submit_answer (quiz_world (PDict [(''correct'', PBool c), (''url'', PStr ''https://quiz.test/next'')]))
           student (Suc (iteration ?st)) ''https://quiz.test/submit'' (current_url ?st) (PInt 4)
           = Inr (PDict [(''correct'', PBool c), (''url'', PStr ''https://quiz.test/next'')])"
    by (simp add: initial_state_def max_iterations_def extract_question_page solve_question_quiz
                  submit_answer_json)
  show ?thesis
    using next_url_regardless_of_correct
            [of ?st "quiz_world (PDict [(''correct'', PBool True), (''url'', PStr ''https://quiz.test/next'')])"
                quiz_question ref_lib "PInt 4" "''https://quiz.test/submit''" student
                "[(''correct'', PBool True), (''url'', PStr ''https://quiz.test/next'')]"]
          next_url_regardless_of_correct
            [of ?st "quiz_world (PDict [(''correct'', PBool False), (''url'', PStr ''https://quiz.test/next'')])"
                quiz_question ref_lib "PInt 4" "''https://quiz.test/submit''" student
                "[(''correct'', PBool False), (''url'', PStr ''https://quiz.test/next'')]"]
          h [of True] h [of False]
    by simp
qed

lemma loop_pass_submit_failed:
  assumes q: "extract_question w (Suc (iteration st)) (current_url st) = Inr qd"
    and a: "solve_question lib w (Suc (iteration st)) qd = Inr a"
    and su: "submit_url qd = Some su" "su \<noteq> []"
    and r: "submit_answer w self (Suc (iteration st)) su (current_url st) a = Inl e"
  shows "loop_pass lib w self st =
           (\<lparr>current_url = current_url st,
              results = results st @ [error_record (current_url st) e],
              iteration = Suc (iteration st)\<rparr>, False)"
  by (rule loop_pass_failed) (simp add: try_body_def q a su r)

text \<open>
  C8. The pass posts the payload \<open>{email, secret, url, answer}\<close> to the page's submit URL.
  If the status is not a success the submitter raises (and the chain ends on an error
  record). Otherwise the decoded dict may lack any field: a missing \<open>correct\<close> is recorded
  as \<open>False\<close>, a missing \<open>reason\<close> as \<open>None\<close>, and a missing \<open>url\<close> ends the chain
  without an error.
\<close>

theorem submitter_contract:
  assumes "extract_question w (Suc (iteration st)) (current_url st) = Inr qd"
    and "solve_question lib w (Suc (iteration st)) qd = Inr a"
    and "submit_url qd = Some su" and "su \<noteq> []"
    and "http_post w (Suc (iteration st)) su
           (PDict [(''email'', PStr (email self)), (''secret'', PStr (secret self)),
                   (''url'', current_url st), (''answer'', a)]) = Inr r"
  shows "(\<forall>e. status_failure r = Some e \<longrightarrow>
            submit_answer w self (Suc (iteration st)) su (current_url st) a = Inl e \<and>
            loop_pass lib w self st =
              (\<lparr>current_url = current_url st,
                 results = results st @ [PDict [(''url'', current_url st), (''error'', PStr (str_of e))]],
                 iteration = Suc (iteration st)\<rparr>, False))
       \<and> (\<forall>d. status_failure r = None \<and> resp_json r = Inr (PDict d) \<longrightarrow>
            submit_answer w self (Suc (iteration st)) su (current_url st) a = Inr (PDict d) \<and>
            loop_pass lib w self st =
              (\<lparr>current_url = (case map_of d ''url'' of
                                  None \<Rightarrow> current_url st
                                | Some u \<Rightarrow> if truthy u then u else current_url st),
                 results = results st @
                   [PDict [(''url'', current_url st), (''question'', PStr (take 200 (question qd))),
                           (''answer'', a),
                           (''correct'', case map_of d ''correct'' of None \<Rightarrow> PBool False | Some c \<Rightarrow> c),
                           (''reason'', case map_of d ''reason'' of None \<Rightarrow> PNone | Some x \<Rightarrow> x)]],
                 iteration = Suc (iteration st)\<rparr>,
               case map_of d ''url'' of None \<Rightarrow> False | Some u \<Rightarrow> truthy u))"
proof (intro conjI allI impI)
  fix e assume f: "status_failure r = Some e"
  with assms(5) show s: "submit_answer w self (Suc (iteration st)) su (current_url st) a = Inl e"
    by (simp add: submit_answer_def payload_def)
  from loop_pass_submit_failed [OF assms(1) assms(2) assms(3) assms(4) s]
  show "loop_pass lib w self st =
              (\<lparr>current_url = current_url st,
                 results = results st @ [PDict [(''url'', current_url st), (''error'', PStr (str_of e))]],
                 iteration = Suc (iteration st)\<rparr>, False)"
    by (simp add: error_record_def)
next
  fix d assume "status_failure r = None \<and> resp_json r = Inr (PDict d)"
  with assms(5) show s: "submit_answer w self (Suc (iteration st)) su (current_url st) a = Inr (PDict d)"
    by (simp add: submit_answer_def payload_def)
  from loop_pass_decoded [OF assms(1) assms(2) assms(3) assms(4) s]
  show "loop_pass lib w self st =
              (\<lparr>current_url = (case map_of d ''url'' of
                                  None \<Rightarrow> current_url st
                                | Some u \<Rightarrow> if truthy u then u else current_url st),
                 results = results st @
                   [PDict [(''url'', current_url st), (''question'', PStr (take 200 (question qd))),
                           (''answer'', a),
                           (''correct'', case map_of d ''correct'' of None \<Rightarrow> PBool False | Some c \<Rightarrow> c),
                           (''reason'', case map_of d ''reason'' of None \<Rightarrow> PNone | Some x \<Rightarrow> x)]],
                 iteration = Suc (iteration st)\<rparr>,
               case map_of d ''url'' of None \<Rightarrow> False | Some u \<Rightarrow> truthy u)"
    by (simp add: step_record_def)
qed

theorem submitter_contract_witness:
  "loop_pass ref_lib (quiz_world (PDict [])) student (initial_state ''https://quiz.test/q1'') =
     (\<lparr>current_url = PStr ''https://quiz.test/q1'',
        results = [PDict [(''url'', PStr ''https://quiz.test/q1''),
                          (''question'', PStr quiz_text), (''answer'', PInt 4),
                          (''correct'', PBool False), (''reason'', PNone)]],
        iteration = 1\<rparr>, False)"
proof -
  let ?st = "initial_state ''https://quiz.test/q1''"
  have h: "extract_question (quiz_world (PDict [])) (Suc (iteration ?st)) (current_url ?st) = Inr quiz_question
      \<and> solve_question ref_lib (quiz_world (PDict [])) (Suc (iteration ?st)) quiz_question = Inr (PInt 4)
      \<and> http_post (quiz_world (PDict [])) (Suc (iteration ?st)) ''https://quiz.test/submit''
           (PDict [(''email'', PStr (email student)), (''secret'', PStr (secret student)),
                   (''url'', current_url ?st), (''answer'', PInt 4)]) = Inr (json_response (PDict []))
      \<and> status_failure (json_response (PDict [])) = None
      \<and> resp_json (json_response (PDict [])) = Inr (PDict [])"
    by (simp add: extract_question_page solve_question_quiz json_response_def)
  have l: "take 200 quiz_text = quiz_text" by (simp add: quiz_text_def)
  show ?thesis
    using submitter_contract
            [of "quiz_world (PDict [])" ?st quiz_question ref_lib "PInt 4" "''https://quiz.test/submit''"
                student "json_response (PDict [])"] h
    by (simp add: l) (simp add: initial_state_def)
qed

section \<open>Properties of the answer extractor\<close>

lemma rmatch_Cat_map:
  "rmatch f (Cat r1 r2) s =
     concat (map (\<lambda>m. map (\<lambda>n. (later_group (fst m) (fst n), snd n)) (rmatch f r2 (snd m)))
                 (rmatch f r1 s))"
  by (simp add: case_prod_unfold)

lemma rmatch_Atom_Cat:
  "rmatch f (Cat (Atom a) r) s =
     (case s of [] \<Rightarrow> [] | x # xs \<Rightarrow> if atom_match f a x then rmatch f r xs else [])"
  by (cases s) (simp_all add: plus_of_def)

lemma rmatch_lit_ci:
  "ignorecase f \<Longrightarrow>
   rmatch f (lit w) s =
     (if length w \<le> length s \<and> lower (take (length w) s) = lower w
      then [(None, drop (length w) s)] else [])"
proof (induction w arbitrary: s)
  case Nil
  then show ?case by (simp add: lit_def cats_def)
next
  case (Cons c w)
  have l: "lit (c # w) = Cat (Atom (Lit c)) (lit w)"
    by (simp add: lit_def cats_def)
  show ?case
  proof (cases s)
    case Nil
    then show ?thesis by (simp add: l rmatch_Atom_Cat del: rmatch.simps)
  next
    case (Cons x xs)
    show ?thesis
    proof (cases "py_lower_char x = py_lower_char c")
      case True
      with Cons Cons.prems have "rmatch f (lit (c # w)) s = rmatch f (lit w) xs"
        by (simp add: l rmatch_Atom_Cat del: rmatch.simps)
      also have "\<dots> = (if length w \<le> length xs \<and> lower (take (length w) xs) = lower w
                        then [(None, drop (length w) xs)] else [])"
        by (rule Cons.IH [OF Cons.prems])
      finally show ?thesis using True Cons by (simp add: lower_def)
    next
      case False
      with Cons Cons.prems have "rmatch f (lit (c # w)) s = []"
        by (simp add: l rmatch_Atom_Cat del: rmatch.simps)
      with False Cons show ?thesis by (simp add: lower_def)
    qed
  qed
qed

lemma lower_char_newline: "py_lower_char y = CHR ''\<newline>'' \<longleftrightarrow> y = CHR ''\<newline>''"
proof
  assume a: "py_lower_char y = CHR ''\<newline>''"
  define n where "n = (of_char y :: nat)"
  show "y = CHR ''\<newline>''"
  proof (cases "(65 \<le> n \<and> n \<le> 90) \<or> (192 \<le> n \<and> n \<le> 222 \<and> n \<noteq> 215)")
    case False
    with a show ?thesis unfolding py_lower_char_def Let_def n_def by (auto split: if_splits)
  next
    case True
    with a have "char_of (n + 32) = CHR ''\<newline>''"
      by (simp add: py_lower_char_def Let_def n_def)
    then have "(of_char (char_of (n + 32) :: char) :: nat) = 10"
      by simp
    then have m: "(n + 32) mod 256 = 10" by simp
    from True have "n + 32 < 256" by linarith
    then have "(n + 32) mod 256 = n + 32" by simp
    with m have "n + 32 = 10" by simp
    then show ?thesis by simp
  qed
next
  assume "y = CHR ''\<newline>''"
  then show "py_lower_char y = CHR ''\<newline>''" by (simp add: py_lower_char_def)
qed

lemma newline_ci: "atom_match f (Lit CHR ''\<newline>'') y = (y = CHR ''\<newline>'')"
proof -
  have e: "py_lower_char CHR ''\<newline>'' = CHR ''\<newline>''" by (simp add: py_lower_char_def)
  show ?thesis by (simp add: e lower_char_newline)
qed


lemma rmatch_line_end:
  "rmatch f line_end t =
     (case t of [] \<Rightarrow> [(None, [])]
      | y # ys \<Rightarrow> (if y = CHR ''\<newline>'' then [(None, ys)] else [])
                   @ (if t = [CHR ''\<newline>''] then [(None, t)] else []))"
proof (cases t)
  case Nil
  then show ?thesis by (simp add: line_end_def plus_of_def)
next
  case (Cons y ys)
  have "rmatch f line_end (y # ys) =
          (if atom_match f (Lit CHR ''\<newline>'') y then [(None, ys)] else [])
          @ (if y # ys = [CHR ''\<newline>''] then [(None, y # ys)] else [])"
    by (simp add: line_end_def plus_of_def del: atom_match.simps)
  with Cons show ?thesis by (simp add: newline_ci del: atom_match.simps)
qed

lemma rmatch_answer_group:
  "rmatch f answer_group s = lazy_from f s (plus_of star_lazy (atom_match f Dot) s)"
proof -
  have g: "\<And>ts. concat (map (\<lambda>m. map (\<lambda>n. (later_group (fst m) (fst n), snd n)) (rmatch f line_end (snd m)))
                 (map (\<lambda>(g, s'). (Some (take (length s - length s') s), s')) (map (Pair None) ts)))
            = lazy_from f s ts"
  proof -
    fix ts show "concat (map (\<lambda>m. map (\<lambda>n. (later_group (fst m) (fst n), snd n)) (rmatch f line_end (snd m)))
                 (map (\<lambda>(g, s'). (Some (take (length s - length s') s), s')) (map (Pair None) ts)))
            = lazy_from f s ts"
    proof (induction ts)
      case Nil
      show ?case by simp
    next
      case (Cons t ts)
      have "\<And>n. later_group (Some (take (length s - length t) s)) (fst n) = Some (take (length s - length t) s)
                   \<or> n \<notin> set (rmatch f line_end t)"
        by (auto simp: rmatch_line_end later_group_def split: list.splits if_splits)
      then have "map (\<lambda>n. (later_group (Some (take (length s - length t) s)) (fst n), snd n)) (rmatch f line_end t)
                 = map (\<lambda>n. (Some (take (length s - length t) s), snd n)) (rmatch f line_end t)"
        by (intro map_cong) auto
      with Cons show ?case by simp
    qed
  qed
  show ?thesis
    unfolding answer_group_def rmatch_Cat_map
    by (simp only: rmatch.simps g)
qed

lemma lazy_from_first:
  "s = pre @ t \<Longrightarrow>
   \<exists>rest ms. lazy_from f s (star_lazy (\<lambda>c. True) t)
                = (Some (pre @ takeWhile (\<lambda>c. c \<noteq> CHR ''\<newline>'') t), rest) # ms"
proof (induction t arbitrary: pre)
  case Nil
  then show ?case by (simp add: rmatch_line_end)
next
  case (Cons y ys)
  show ?case
  proof (cases "y = CHR ''\<newline>''")
    case True
    with Cons.prems show ?thesis by (simp add: rmatch_line_end)
  next
    case False
    from Cons.prems have "s = (pre @ [y]) @ ys" by simp
    from Cons.IH [OF this] obtain rest ms where
      "lazy_from f s (star_lazy (\<lambda>c. True) ys)
         = (Some ((pre @ [y]) @ takeWhile (\<lambda>c. c \<noteq> CHR ''\<newline>'') ys), rest) # ms" by blast
    with False show ?thesis by (simp add: rmatch_line_end)
  qed
qed

lemma answer_group_first:
  assumes "dotall f"
  shows "rmatch f answer_group [] = []"
    and "\<exists>rest ms. rmatch f answer_group (x # xs)
           = (Some (x # takeWhile (\<lambda>c. c \<noteq> CHR ''\<newline>'') xs), rest) # ms"
proof -
  from assms have d: "atom_match f Dot = (\<lambda>c. True)" by (simp add: fun_eq_iff)
  show "rmatch f answer_group [] = []"
    by (simp add: rmatch_answer_group plus_of_def)
  have "x # xs = [x] @ xs" by simp
  from lazy_from_first [OF this, of f]
  show "\<exists>rest ms. rmatch f answer_group (x # xs)
           = (Some (x # takeWhile (\<lambda>c. c \<noteq> CHR ''\<newline>'') xs), rest) # ms"
    by (simp add: rmatch_answer_group plus_of_def d)
qed


lemma star_greedy_all:
  "dropWhile p r = [] \<Longrightarrow> r \<noteq> [] \<Longrightarrow> \<exists>ms. star_greedy p r = [] # [last r] # ms"
proof (induction r)
  case Nil
  then show ?case by simp
next
  case (Cons x xs)
  from Cons.prems have px: "p x" and d: "dropWhile p xs = []" by (auto split: if_splits)
  show ?case
  proof (cases xs)
    case Nil
    with px show ?thesis by simp
  next
    case (Cons y ys)
    with Cons.IH d obtain ms where "star_greedy p xs = [] # [last xs] # ms" by auto
    with px Cons show ?thesis by simp
  qed
qed

lemma rmatch_Star_Cat:
  "rmatch f (Cat (Star WS) r) s = concat (map (rmatch f r) (star_greedy py_isspace s))"
proof -
  have "\<And>m. map (\<lambda>n. (later_group None (fst n), snd n)) m = (m :: (string option \<times> string) list)"
    by (simp add: map_idI)
  moreover have "atom_match f WS = py_isspace" by (simp add: fun_eq_iff)
  ultimately show ?thesis
    unfolding rmatch_Cat_map by (simp add: comp_def)
qed

lemma answer_tail_capture:
  assumes "dotall f"
  shows "case capture_after r of
           None \<Rightarrow> rmatch f (Cat (Star WS) answer_group) r = []
         | Some c \<Rightarrow> (\<exists>rest ms. rmatch f (Cat (Star WS) answer_group) r = (Some c, rest) # ms)"
proof (cases "dropWhile py_isspace r")
  case (Cons x xs)
  from star_greedy_hd [of py_isspace r] obtain ms
    where "star_greedy py_isspace r = dropWhile py_isspace r # ms" ..
  moreover from answer_group_first(2) [OF assms, of x xs] obtain rest ms' where
    "rmatch f answer_group (x # xs) = (Some (x # takeWhile (\<lambda>c. c \<noteq> CHR ''\<newline>'') xs), rest) # ms'"
    by blast
  moreover from Cons have "x \<noteq> CHR ''\<newline>''"
    using hd_dropWhile [of py_isspace r] by (auto simp: py_isspace_def)
  ultimately show ?thesis using Cons
    by (simp add: rmatch_Star_Cat capture_after_def del: rmatch.simps)
next
  case Nil
  note dw = this
  show ?thesis
  proof (cases "r = []")
    case True
    then show ?thesis
      by (simp add: rmatch_Star_Cat capture_after_def answer_group_first(1) [OF assms] del: rmatch.simps)
  next
    case False
    from star_greedy_all [OF dw False] obtain ms
      where "star_greedy py_isspace r = [] # [last r] # ms" ..
    moreover from answer_group_first(2) [OF assms, of "last r" "[]"] obtain rest ms' where
      "rmatch f answer_group [last r] = (Some [last r], rest) # ms'" by auto
    ultimately show ?thesis using dw False
      by (simp add: rmatch_Star_Cat capture_after_def answer_group_first(1) [OF assms] del: rmatch.simps)
  qed
qed

lemma final_answer_re_unfold:
  "final_answer_re = Cat (lit ''FINAL_ANSWER:'') (Cat (Star WS) answer_group)"
  by (simp add: final_answer_re_def cats_def answer_group_def line_end_def)

lemma lower_marker: "lower ''FINAL_ANSWER:'' = ''final_answer:''"
  by code_simp

lemma length_marker: "length ''FINAL_ANSWER:'' = 13"
  by simp

lemma rmatch_final_answer:
  "rmatch final_answer_flags final_answer_re s =
     (if marker_at s then rmatch final_answer_flags (Cat (Star WS) answer_group) (drop 13 s) else [])"
proof -
  have i: "ignorecase final_answer_flags" by (simp add: final_answer_flags_def)
  have l: "rmatch final_answer_flags (lit ''FINAL_ANSWER:'') s =
             (if marker_at s then [(None, drop 13 s)] else [])"
    unfolding rmatch_lit_ci [OF i] by (simp only: length_marker lower_marker marker_at_def)
  show ?thesis
  proof (cases "marker_at s")
    case True
    with l show ?thesis unfolding final_answer_re_unfold
      by (simp add: rmatch_Cat_single del: rmatch.simps)
  next
    case False
    with l show ?thesis unfolding final_answer_re_unfold
      by (simp add: rmatch_Cat_nil del: rmatch.simps)
  qed
qed

lemma rmatch_final_capture:
  "case (if marker_at s then capture_after (drop 13 s) else None) of
     None \<Rightarrow> rmatch final_answer_flags final_answer_re s = []
   | Some c \<Rightarrow> (\<exists>rest ms. rmatch final_answer_flags final_answer_re s = (Some c, rest) # ms)"
proof -
  have d: "dotall final_answer_flags" by (simp add: final_answer_flags_def)
  show ?thesis
  proof (cases "marker_at s")
    case True
    with answer_tail_capture [OF d, of "drop 13 s"] show ?thesis
      by (simp only: rmatch_final_answer if_True)
  next
    case False
    then show ?thesis by (simp add: rmatch_final_answer del: rmatch.simps)
  qed
qed

lemma re_search_final_answer:
  "re_search final_answer_flags final_answer_re response = map_option Some (first_capture response)"
proof (induction response)
  case Nil
  have "\<not> marker_at []" by (simp add: marker_at_def)
  with rmatch_final_capture [of "[]"] show ?case by simp
next
  case (Cons x xs)
  show ?case
  proof (cases "if marker_at (x # xs) then capture_after (drop 13 (x # xs)) else None")
    case None
    with rmatch_final_capture [of "x # xs"]
    have "rmatch final_answer_flags final_answer_re (x # xs) = []" by simp
    moreover from None have "first_capture (x # xs) = first_capture xs"
      by (simp split: if_splits)
    ultimately show ?thesis using Cons.IH by simp
  next
    case (Some c)
    with rmatch_final_capture [of "x # xs"] obtain rest ms where
      "rmatch final_answer_flags final_answer_re (x # xs) = (Some c, rest) # ms" by auto
    moreover from Some have "first_capture (x # xs) = Some c"
      by (simp split: if_splits)
    ultimately show ?thesis by simp
  qed
qed

lemma captured_answer_direct:
  "captured_answer response =
     (case first_capture response of
        Some a \<Rightarrow> Inr (strip a)
      | None \<Rightarrow> last_line response)"
  by (simp add: captured_answer_def re_search_final_answer split: option.splits)

lemma last_line_total: "\<exists>a. last_line response = Inr a"
  by (auto simp: last_line_def Let_def split: list.splits)

lemma captured_answer_total: "\<exists>a. captured_answer response = Inr a"
  using last_line_total [of response]
  by (auto simp: captured_answer_direct split: option.splits)


lemma first_capture_at_marker:
  "first_marker response pre rest \<Longrightarrow> drop 13 rest \<noteq> [] \<Longrightarrow>
     first_capture response = capture_after (drop 13 rest)"
proof (induction pre arbitrary: response)
  case Nil
  then have r: "response = rest" and m: "marker_at rest" by (simp_all add: first_marker_def)
  from Nil.prems(2) have "capture_after (drop 13 rest) \<noteq> None"
    unfolding capture_after_def by (simp only: if_True if_False split: if_splits) auto
  then obtain c where c: "capture_after (drop 13 rest) = Some c" by blast
  from m obtain x xs where "rest = x # xs" by (cases rest) (auto simp: marker_at_def)
  with r m c show ?case by simp
next
  case (Cons p ps)
  from Cons.prems(1) have r: "response = p # (ps @ rest)" and m: "marker_at rest"
    and n: "\<forall>i < Suc (length ps). \<not> marker_at (drop i response)"
    unfolding first_marker_def by auto
  from n have "\<not> marker_at (drop 0 response)" by blast
  then have n0: "\<not> marker_at (p # (ps @ rest))" by (simp add: r)
  have "\<forall>i < length ps. \<not> marker_at (drop i (ps @ rest))"
  proof (intro allI impI)
    fix i assume "i < length ps"
    then have "Suc i < Suc (length ps)" by simp
    with n have "\<not> marker_at (drop (Suc i) response)" by blast
    then show "\<not> marker_at (drop i (ps @ rest))" by (simp add: r)
  qed
  with m have "first_marker (ps @ rest) ps rest" by (simp add: first_marker_def)
  from Cons.IH [OF this Cons.prems(2)] n0 show ?case by (simp add: r)
qed

lemma first_capture_no_marker:
  "\<forall>i. \<not> marker_at (drop i response) \<Longrightarrow> first_capture response = None"
proof (induction response)
  case Nil
  show ?case by simp
next
  case (Cons x xs)
  from Cons.prems have "\<not> marker_at (drop 0 (x # xs))" by blast
  then have n0: "\<not> marker_at (x # xs)" by simp
  have "\<forall>i. \<not> marker_at (drop i xs)"
  proof
    fix i from Cons.prems have "\<not> marker_at (drop (Suc i) (x # xs))" by blast
    then show "\<not> marker_at (drop i xs)" by simp
  qed
  from Cons.IH [OF this] n0 show ?case by simp
qed

lemma capture_after_body:
  assumes "\<forall>c \<in> set ws. py_isspace c" and "body \<noteq> []" and "\<not> py_isspace (hd body)"
    and "CHR ''\<newline>'' \<notin> set body" and "post = [] \<or> hd post = CHR ''\<newline>''"
  shows "capture_after (ws @ body @ post) = Some body"
proof -
  from assms(2) obtain b bs where b: "body = b # bs" by (cases body) auto
  with assms(3) have nb: "\<not> py_isspace b" by simp
  from assms(1) have "dropWhile py_isspace (ws @ body @ post) = dropWhile py_isspace (body @ post)"
    by (simp add: dropWhile_append2)
  with b nb have d: "dropWhile py_isspace (ws @ body @ post) = body @ post" by simp
  have "takeWhile (\<lambda>c. c \<noteq> CHR ''\<newline>'') (body @ post) = body"
  proof (cases post)
    case Nil
    with assms(4) show ?thesis by (auto simp add: takeWhile_eq_all_conv)
  next
    case (Cons y ys)
    with assms(5) have "y = CHR ''\<newline>''" by simp
    moreover from assms(4) have "\<forall>x \<in> set body. x \<noteq> CHR ''\<newline>''" by blast
    ultimately show ?thesis using Cons by (simp add: takeWhile_tail)
  qed
  with d b show ?thesis by (simp add: capture_after_def)
qed

lemma captured_at_marker:
  assumes "first_marker response pre rest" and "drop 13 rest = ws @ body @ post"
    and "\<forall>c \<in> set ws. py_isspace c" and "body \<noteq> []" and "\<not> py_isspace (hd body)"
    and "CHR ''\<newline>'' \<notin> set body" and "post = [] \<or> hd post = CHR ''\<newline>''"
  shows "captured_answer response = Inr (strip body)"
proof -
  from assms(2) assms(4) have "drop 13 rest \<noteq> []" by simp
  from first_capture_at_marker [OF assms(1) this]
  have "first_capture response = capture_after (ws @ body @ post)" by (simp add: assms(2))
  also have "\<dots> = Some body"
    using assms(3) assms(4) assms(5) assms(6) assms(7) by (rule capture_after_body)
  finally show ?thesis by (simp add: captured_answer_direct)
qed

lemma classify_json:
  "json_loads lib a = Inr v \<Longrightarrow> classify_answer lib a = v"
  by (simp add: classify_answer_def)

lemma classify_number:
  "json_loads lib a = Inl e \<Longrightarrow> parse_number lib a = Inr v \<Longrightarrow> classify_answer lib a = v"
  by (simp add: classify_answer_def)

lemma classify_rest:
  "json_loads lib a = Inl e \<Longrightarrow> parse_number lib a = Inl e' \<Longrightarrow>
   classify_answer lib a =
     (if lower a = ''true'' then PBool True else if lower a = ''false'' then PBool False else PStr a)"
  by (simp add: classify_answer_def)

lemma extract_final_answer_classify:
  "captured_answer response = Inr a \<Longrightarrow> extract_final_answer lib response = Inr (classify_answer lib a)"
  by (simp add: extract_final_answer_def)

lemma strip_clean:
  "s \<noteq> [] \<Longrightarrow> \<not> py_isspace (hd s) \<Longrightarrow> \<not> py_isspace (last s) \<Longrightarrow> strip s = s"
proof -
  assume a: "s \<noteq> []" "\<not> py_isspace (hd s)" "\<not> py_isspace (last s)"
  then have "dropWhile py_isspace s = s" by (cases s) auto
  moreover from a have "dropWhile py_isspace (rev s) = rev s"
    by (cases "rev s") (auto simp: hd_rev)
  ultimately show ?thesis by (simp add: strip_def)
qed


lemma parse_number_cases:
  "parse_number lib a =
     (if py_in ''.'' a then map_sum id PFloat (py_float lib a) else map_sum id PInt (py_int lib a))"
  by (simp add: parse_number_def split: sum.splits)

lemma split_on_nonempty: "split_on c s \<noteq> []"
  by (induction s) (auto split: list.splits)

lemma split_on_no_sep: "c \<notin> set s \<Longrightarrow> split_on c s = [s]"
  by (induction s) auto

lemma split_on_append: "split_on c (a @ c # b) = split_on c a @ split_on c b"
proof (induction a)
  case Nil
  show ?case by simp
next
  case (Cons x a)
  obtain l ls where l: "split_on c a = l # ls"
    using split_on_nonempty [of c a] by (cases "split_on c a") auto
  show ?case
  proof (cases "x = c")
    case True
    with Cons show ?thesis by simp
  next
    case False
    with Cons l show ?thesis by simp
  qed
qed

lemma dropWhile_all: "\<forall>x \<in> set xs. P x \<Longrightarrow> dropWhile P xs = []"
  by (induction xs) auto

lemma dropWhile_some: "\<exists>x \<in> set xs. \<not> P x \<Longrightarrow> dropWhile P xs \<noteq> []"
  by (induction xs) auto

lemma strip_prepend_ws: "\<forall>c \<in> set a. py_isspace c \<Longrightarrow> strip (a @ s) = strip s"
  by (simp add: strip_def dropWhile_append)

lemma rstrip_append_ws:
  "\<forall>c \<in> set a. py_isspace c \<Longrightarrow>
     rev (dropWhile py_isspace (rev (s @ a))) = rev (dropWhile py_isspace (rev s))"
  by (simp add: dropWhile_append)

lemma strip_append_ws: "\<forall>c \<in> set a. py_isspace c \<Longrightarrow> strip (s @ a) = strip s"
proof (cases "\<forall>c \<in> set s. py_isspace c")
  case True
  assume "\<forall>c \<in> set a. py_isspace c"
  with True have "dropWhile py_isspace (s @ a) = []" "dropWhile py_isspace s = []"
    by (simp_all add: dropWhile_all)
  then show ?thesis by (simp only: strip_def)
next
  case False
  assume a: "\<forall>c \<in> set a. py_isspace c"
  from False obtain x where "x \<in> set s" "\<not> py_isspace x" by blast
  then have "dropWhile py_isspace (s @ a) = dropWhile py_isspace s @ a"
    by (rule dropWhile_append1)
  with rstrip_append_ws [OF a, of "dropWhile py_isspace s"] show ?thesis
    by (simp add: strip_def)
qed

lemma strip_all_ws: "\<forall>c \<in> set s. py_isspace c \<Longrightarrow> strip s = []"
proof -
  assume "\<forall>c \<in> set s. py_isspace c"
  then have d: "dropWhile py_isspace s = []" by (rule dropWhile_all)
  show ?thesis unfolding strip_def d by simp
qed

lemma rstrip_split:
  "\<exists>tw. s = rev (dropWhile py_isspace (rev s)) @ tw \<and> (\<forall>c \<in> set tw. py_isspace c)"
proof -
  have "rev (dropWhile py_isspace (rev s)) @ rev (takeWhile py_isspace (rev s))
          = rev (takeWhile py_isspace (rev s) @ dropWhile py_isspace (rev s))"
    by (simp only: rev_append)
  also have "\<dots> = rev (rev s)" by (simp only: takeWhile_dropWhile_id)
  finally have "s = rev (dropWhile py_isspace (rev s)) @ rev (takeWhile py_isspace (rev s))"
    by simp
  moreover have "\<forall>c \<in> set (rev (takeWhile py_isspace (rev s))). py_isspace c"
    by (auto dest: set_takeWhileD)
  ultimately show ?thesis by blast
qed

lemma rstrip_last:
  "rev (dropWhile py_isspace (rev s)) \<noteq> [] \<Longrightarrow>
     \<not> py_isspace (last (rev (dropWhile py_isspace (rev s))))"
  using hd_dropWhile [of py_isspace "rev s"] by (simp add: last_rev)

lemma rstrip_keep:
  "m \<noteq> [] \<Longrightarrow> \<not> py_isspace (last m) \<Longrightarrow> rev (dropWhile py_isspace (rev (x @ m))) = x @ m"
proof -
  assume "m \<noteq> []" "\<not> py_isspace (last m)"
  then have "dropWhile py_isspace (rev m @ rev x) = rev m @ rev x"
    by (cases "rev m") (auto simp: last_rev hd_rev)
  then show ?thesis by simp
qed

lemma rstrip_nonempty:
  "\<exists>c \<in> set s. \<not> py_isspace c \<Longrightarrow> rev (dropWhile py_isspace (rev s)) \<noteq> []"
  using dropWhile_some [of "rev s" py_isspace] by simp

lemma strip_ends:
  "strip s \<noteq> [] \<Longrightarrow> \<not> py_isspace (hd (strip s)) \<and> \<not> py_isspace (last (strip s))"
proof -
  assume n: "strip s \<noteq> []"
  let ?u = "dropWhile py_isspace s"
  have u: "?u \<noteq> []"
  proof
    assume e: "?u = []"
    have "strip s = []" unfolding strip_def e by simp
    with n show False by simp
  qed
  then have hu: "\<not> py_isspace (hd ?u)" by (rule hd_dropWhile)
  from rstrip_split [of ?u] obtain tw where t: "?u = strip s @ tw"
    by (auto simp: strip_def)
  with n have "hd ?u = hd (strip s)" by (metis hd_append2)
  with hu have h: "\<not> py_isspace (hd (strip s))" by simp
  from n rstrip_last [of ?u] have "\<not> py_isspace (last (strip s))" by (simp add: strip_def)
  with h show ?thesis by simp
qed

lemma strip_idem: "strip (strip s) = strip s"
proof (cases "strip s = []")
  case True
  have "strip [] = []" by (simp add: strip_def)
  with True show ?thesis by simp
next
  case False
  with strip_ends [OF False] show ?thesis by (intro strip_clean) simp_all
qed

lemma strip_nonempty: "\<exists>c \<in> set s. \<not> py_isspace c \<Longrightarrow> strip s \<noteq> []"
proof -
  assume "\<exists>c \<in> set s. \<not> py_isspace c"
  then have ne: "dropWhile py_isspace s \<noteq> []" by (rule dropWhile_some)
  then have "\<not> py_isspace (hd (dropWhile py_isspace s))" by (rule hd_dropWhile)
  moreover from ne have "hd (dropWhile py_isspace s) \<in> set (dropWhile py_isspace s)" by simp
  ultimately have "\<exists>c \<in> set (dropWhile py_isspace s). \<not> py_isspace c" by blast
  from rstrip_nonempty [OF this] show ?thesis by (simp add: strip_def)
qed

lemma strip_subset: "set (strip s) \<subseteq> set s"
proof -
  have "set (strip s) \<subseteq> set (dropWhile py_isspace s)"
    unfolding strip_def by (auto dest: set_dropWhileD)
  also have "\<dots> \<subseteq> set s" by (auto dest: set_dropWhileD)
  finally show ?thesis .
qed


lemma last_line_of_lines:
  assumes "split_on CHR ''\<newline>'' (strip response) = pfx @ [m]" and "strip m \<noteq> []"
  shows "last_line response = Inr (strip m)"
proof -
  let ?lines = "filter (\<lambda>l. l \<noteq> []) (map strip (split_on CHR ''\<newline>'' (strip response)))"
  have l: "?lines = filter (\<lambda>l. l \<noteq> []) (map strip pfx) @ [strip m]"
    using assms by simp
  then have r: "rev ?lines = strip m # rev (filter (\<lambda>l. l \<noteq> []) (map strip pfx))"
    by simp
  from l have n: "?lines \<noteq> []" by simp
  have "last_line response =
          (if ?lines \<noteq> [] then
             (case rev ?lines of
                [] \<Rightarrow> Inl (Raised ''IndexError'' ''list index out of range'')
              | l # _ \<Rightarrow> Inr l)
           else Inr (strip response))"
    by (simp only: last_line_def Let_def)
  also have "\<dots> = (case rev ?lines of
                [] \<Rightarrow> Inl (Raised ''IndexError'' ''list index out of range'')
              | l # _ \<Rightarrow> Inr l)"
    using n by (rule if_P)
  also have "\<dots> = Inr (strip m)" by (simp only: r list.case)
  finally show ?thesis .
qed

lemma last_line_blank:
  "\<forall>c \<in> set response. py_isspace c \<Longrightarrow> last_line response = Inr []"
proof -
  assume "\<forall>c \<in> set response. py_isspace c"
  then have e: "strip response = []" by (rule strip_all_ws)
  have s0: "strip [] = []" by (simp add: strip_def)
  show ?thesis unfolding last_line_def e by (simp add: s0)
qed

lemma last_line_nonblank:
  assumes r: "response = before @ line @ after"
    and nl: "CHR ''\<newline>'' \<notin> set line"
    and b: "before = [] \<or> last before = CHR ''\<newline>''"
    and l: "\<exists>c \<in> set line. \<not> py_isspace c"
    and a: "\<forall>c \<in> set after. py_isspace c"
  shows "last_line response = Inr (strip line)"
proof -
  let ?m = "rev (dropWhile py_isspace (rev line))"
  from rstrip_split [of line] obtain tw where tw: "line = ?m @ tw" "\<forall>c \<in> set tw. py_isspace c"
    by blast
  from l have mne: "?m \<noteq> []" by (rule rstrip_nonempty)
  then have mlast: "\<not> py_isspace (last ?m)" by (rule rstrip_last)
  have msub: "set ?m \<subseteq> set line" by (auto dest: set_dropWhileD)
  with nl have mnl: "CHR ''\<newline>'' \<notin> set ?m" by blast
  have "strip line = strip (?m @ tw)" using tw(1) by simp
  also have "\<dots> = strip ?m" using tw(2) by (rule strip_append_ws)
  finally have sl: "strip ?m = strip line" by simp
  from l have sne: "strip line \<noteq> []" by (rule strip_nonempty)
  have "response = (before @ line) @ after" by (simp add: r)
  then have "strip response = strip (before @ line)" using a by (simp only: strip_append_ws)
  also have "before @ line = (before @ ?m) @ tw" using tw(1) by simp
  also have "strip ((before @ ?m) @ tw) = strip (before @ ?m)" using tw(2) by (rule strip_append_ws)
  finally have t: "strip response = strip (before @ ?m)" .
  show ?thesis
  proof (cases "\<forall>c \<in> set before. py_isspace c")
    case True
    then have "strip (before @ ?m) = strip ?m" by (rule strip_prepend_ws)
    with t sl have t': "strip response = strip line" by simp
    have "CHR ''\<newline>'' \<notin> set (strip line)" using strip_subset [of line] nl by blast
    then have "split_on CHR ''\<newline>'' (strip response) = [] @ [strip line]"
      by (simp add: t' split_on_no_sep)
    moreover have "strip (strip line) \<noteq> []" using sne by (simp add: strip_idem)
    ultimately have "last_line response = Inr (strip (strip line))" by (rule last_line_of_lines)
    then show ?thesis by (simp add: strip_idem)
  next
    case False
    then obtain x where x: "x \<in> set before" "\<not> py_isspace x" by blast
    let ?b1 = "dropWhile py_isspace before"
    from x have b1ne: "?b1 \<noteq> []" using dropWhile_some [of before py_isspace] by blast
    from x have "dropWhile py_isspace (before @ ?m) = ?b1 @ ?m" by (rule dropWhile_append1)
    then have "strip (before @ ?m) = rev (dropWhile py_isspace (rev (?b1 @ ?m)))"
      by (simp only: strip_def)
    also have "\<dots> = ?b1 @ ?m" using mne mlast by (rule rstrip_keep)
    finally have t': "strip response = ?b1 @ ?m" using t by simp
    from x have "before \<noteq> []" by auto
    with b have lb: "last before = CHR ''\<newline>''" by simp
    have "before = takeWhile py_isspace before @ ?b1" by simp
    with b1ne have "last before = last ?b1" by (metis last_appendR)
    with lb have "last ?b1 = CHR ''\<newline>''" by simp
    with b1ne obtain b2 where b2: "?b1 = b2 @ [CHR ''\<newline>'']"
      by (metis append_butlast_last_id)
    have "split_on CHR ''\<newline>'' (strip response) = split_on CHR ''\<newline>'' (b2 @ CHR ''\<newline>'' # ?m)"
      by (simp add: t' b2)
    also have "\<dots> = split_on CHR ''\<newline>'' b2 @ split_on CHR ''\<newline>'' ?m"
      by (rule split_on_append)
    also have "split_on CHR ''\<newline>'' ?m = [?m]" using mnl by (rule split_on_no_sep)
    finally have "split_on CHR ''\<newline>'' (strip response) = split_on CHR ''\<newline>'' b2 @ [?m]" .
    moreover have "strip ?m \<noteq> []" using sne sl by simp
    ultimately have "last_line response = Inr (strip ?m)" by (rule last_line_of_lines)
    with sl show ?thesis by simp
  qed
qed


lemma first_capture_short: "length s < 13 \<Longrightarrow> first_capture s = None"
proof -
  assume "length s < 13"
  have "\<forall>i. \<not> marker_at (drop i s)"
  proof
    fix i from \<open>length s < 13\<close> have "\<not> 13 \<le> length (drop i s)" by simp
    then show "\<not> marker_at (drop i s)" unfolding marker_at_def by blast
  qed
  then show ?thesis by (rule first_capture_no_marker)
qed

lemma first_capture_marker_at_end:
  "first_marker response pre rest \<Longrightarrow> drop 13 rest = [] \<Longrightarrow> first_capture response = None"
proof (induction pre arbitrary: response)
  case Nil
  then have r: "response = rest" and m: "marker_at rest" by (simp_all add: first_marker_def)
  from m obtain x xs where x: "rest = x # xs" by (cases rest) (auto simp: marker_at_def)
  from Nil.prems(2) have "length rest \<le> 13" by simp
  with x have "length xs < 13" by simp
  then have "first_capture xs = None" by (rule first_capture_short)
  moreover have "capture_after [] = None" by (simp add: capture_after_def)
  ultimately show ?case using m x r Nil.prems(2) by simp
next
  case (Cons p ps)
  from Cons.prems(1) have r: "response = p # (ps @ rest)" and m: "marker_at rest"
    and n: "\<forall>i < Suc (length ps). \<not> marker_at (drop i response)"
    unfolding first_marker_def by auto
  from n have "\<not> marker_at (drop 0 response)" by blast
  then have n0: "\<not> marker_at (p # (ps @ rest))" by (simp add: r)
  have "\<forall>i < length ps. \<not> marker_at (drop i (ps @ rest))"
  proof (intro allI impI)
    fix i assume "i < length ps"
    then have "Suc i < Suc (length ps)" by simp
    with n have "\<not> marker_at (drop (Suc i) response)" by blast
    then show "\<not> marker_at (drop i (ps @ rest))" by (simp add: r)
  qed
  with m have "first_marker (ps @ rest) ps rest" by (simp add: first_marker_def)
  from Cons.IH [OF this Cons.prems(2)] n0 show ?case by (simp add: r)
qed

lemma captured_marker_at_end:
  "first_marker response pre rest \<Longrightarrow> drop 13 rest = [] \<Longrightarrow>
     captured_answer response = last_line response"
  by (simp add: captured_answer_direct first_capture_marker_at_end)

lemma captured_marker_blank:
  assumes "first_marker response pre rest" and "drop 13 rest \<noteq> []"
    and "\<forall>c \<in> set (drop 13 rest). py_isspace c"
  shows "captured_answer response = Inr []"
proof -
  let ?r = "drop 13 rest"
  from assms(3) have d: "dropWhile py_isspace ?r = []" by (rule dropWhile_all)
  from assms(2) have "last ?r \<in> set ?r" by (rule last_in_set)
  with assms(3) have "py_isspace (last ?r)" by blast
  then have s: "strip [last ?r] = []" by (simp add: strip_def)
  have "capture_after ?r = Some [last ?r]"
    unfolding capture_after_def d using assms(2) by simp
  with first_capture_at_marker [OF assms(1) assms(2)] have "first_capture response = Some [last ?r]"
    by simp
  then show ?thesis by (simp add: captured_answer_direct s)
qed

lemma marker_exhaustive:
  "(\<forall>i. \<not> marker_at (drop i response)) \<or> (\<exists>pre rest. first_marker response pre rest)"
proof (cases "\<exists>i. marker_at (drop i response)")
  case False
  then show ?thesis by blast
next
  case True
  define k where "k = (LEAST i. marker_at (drop i response))"
  from True have mk: "marker_at (drop k response)" unfolding k_def by (rule LeastI_ex)
  have least: "\<forall>i < k. \<not> marker_at (drop i response)"
    unfolding k_def using not_less_Least by blast
  from mk have "k < length response" by (auto simp: marker_at_def)
  then have "length (take k response) = k" by simp
  with mk least have "first_marker response (take k response) (drop k response)"
    by (simp add: first_marker_def)
  then show ?thesis by blast
qed

lemma body_exhaustive:
  assumes "\<exists>c \<in> set r. \<not> py_isspace c"
  shows "\<exists>ws body post. r = ws @ body @ post \<and> (\<forall>c \<in> set ws. py_isspace c) \<and> body \<noteq> [] \<and>
           \<not> py_isspace (hd body) \<and> CHR ''\<newline>'' \<notin> set body \<and>
           (post = [] \<or> hd post = CHR ''\<newline>'')"
proof -
  let ?ws = "takeWhile py_isspace r"
  let ?d = "dropWhile py_isspace r"
  let ?body = "takeWhile (\<lambda>c. c \<noteq> CHR ''\<newline>'') ?d"
  let ?post = "dropWhile (\<lambda>c. c \<noteq> CHR ''\<newline>'') ?d"
  from assms have dne: "?d \<noteq> []" by (rule dropWhile_some)
  then have hd: "\<not> py_isspace (hd ?d)" by (rule hd_dropWhile)
  then have "hd ?d \<noteq> CHR ''\<newline>''" by (auto simp: py_isspace_def)
  with dne have bne: "?body \<noteq> []" by (cases ?d) auto
  with dne have hb: "hd ?body = hd ?d" by (cases ?d) (auto split: if_splits)
  have "r = ?ws @ ?body @ ?post" by simp
  moreover have "\<forall>c \<in> set ?ws. py_isspace c" by (auto dest: set_takeWhileD)
  moreover have "CHR ''\<newline>'' \<notin> set ?body" by (auto dest: set_takeWhileD)
  moreover have "?post = [] \<or> hd ?post = CHR ''\<newline>''"
    using hd_dropWhile [of "\<lambda>c. c \<noteq> CHR ''\<newline>''" ?d] by auto
  ultimately show ?thesis using bne hb hd by (metis (lifting))
qed


lemma rev_split: "s = rev (dropWhile Q (rev s)) @ rev (takeWhile Q (rev s))"
proof -
  have "rev (dropWhile Q (rev s)) @ rev (takeWhile Q (rev s))
          = rev (takeWhile Q (rev s) @ dropWhile Q (rev s))"
    by (simp only: rev_append)
  also have "\<dots> = rev (rev s)" by (simp only: takeWhile_dropWhile_id)
  finally show ?thesis by simp
qed

lemma line_exhaustive:
  assumes "\<exists>c \<in> set s. \<not> py_isspace c"
  shows "\<exists>before line after. s = before @ line @ after \<and> CHR ''\<newline>'' \<notin> set line \<and>
           (before = [] \<or> last before = CHR ''\<newline>'') \<and>
           (after = [] \<or> hd after = CHR ''\<newline>'') \<and>
           (\<exists>c \<in> set line. \<not> py_isspace c) \<and> (\<forall>c \<in> set after. py_isspace c)"
proof -
  let ?Q = "\<lambda>c. c \<noteq> CHR ''\<newline>''"
  define ru where "ru = dropWhile py_isspace (rev s)"
  define v where "v = rev (takeWhile py_isspace (rev s))"
  define before where "before = rev (dropWhile ?Q ru)"
  define l1 where "l1 = rev (takeWhile ?Q ru)"
  define l2 where "l2 = takeWhile ?Q v"
  define after where "after = dropWhile ?Q v"
  have s: "s = rev ru @ v" unfolding ru_def v_def by (rule rev_split)
  have "rev ru = rev (dropWhile ?Q (rev (rev ru))) @ rev (takeWhile ?Q (rev (rev ru)))"
    by (rule rev_split)
  then have u: "rev ru = before @ l1" by (simp add: before_def l1_def)
  have v: "v = l2 @ after" by (simp add: l2_def after_def)
  from assms have "\<exists>c \<in> set (rev s). \<not> py_isspace c" by simp
  then have rne: "ru \<noteq> []" unfolding ru_def by (rule dropWhile_some)
  then have "\<not> py_isspace (hd ru)" unfolding ru_def by (rule hd_dropWhile)
  moreover from this have "hd ru \<noteq> CHR ''\<newline>''" by (auto simp: py_isspace_def)
  with rne have "hd ru \<in> set (takeWhile ?Q ru)" by (cases ru) auto
  ultimately have ne1: "\<exists>c \<in> set l1. \<not> py_isspace c" unfolding l1_def by auto
  have vws: "\<forall>c \<in> set v. py_isspace c" unfolding v_def by (auto dest: set_takeWhileD)
  have "before @ (l1 @ l2) @ after = (before @ l1) @ (l2 @ after)" by simp
  also have "\<dots> = rev ru @ v" using u v by simp
  finally have e: "s = before @ (l1 @ l2) @ after" using s by simp
  have nl: "CHR ''\<newline>'' \<notin> set (l1 @ l2)"
    unfolding l1_def l2_def by (auto dest: set_takeWhileD)
  have b: "before = [] \<or> last before = CHR ''\<newline>''"
    unfolding before_def using hd_dropWhile [of ?Q ru] by (auto simp: last_rev)
  have a: "after = [] \<or> hd after = CHR ''\<newline>''"
    unfolding after_def using hd_dropWhile [of ?Q v] by auto
  have ne: "\<exists>c \<in> set (l1 @ l2). \<not> py_isspace c" using ne1 by auto
  have aw: "\<forall>c \<in> set after. py_isspace c"
    unfolding after_def using vws by (auto dest: set_dropWhileD)
  from e nl b a ne aw show ?thesis by blast
qed

lemma first_marker_after_remark:
  "marker_at rest \<Longrightarrow> first_marker (''A: '' @ rest) ''A: '' rest"
proof -
  assume m: "marker_at rest"
  have n: "\<And>c t. py_lower_char c \<noteq> CHR ''f'' \<Longrightarrow> \<not> marker_at (c # t)"
    by (auto simp: marker_at_def lower_def)
  have l: "py_lower_char CHR ''A'' \<noteq> CHR ''f''" "py_lower_char CHR '':'' \<noteq> CHR ''f''"
    "py_lower_char CHR '' '' \<noteq> CHR ''f''"
    by code_simp+
  have "\<forall>i < Suc (Suc (Suc 0)). \<not> marker_at (drop i (''A: '' @ rest))"
    by (simp add: less_Suc_eq n l)
  with m show ?thesis by (simp add: first_marker_def)
qed

text \<open>
  C5 (as the code has it). The answer is read at the first \<open>FINAL_ANSWER:\<close> marker, in
  any mix of upper and lower case. If a character that is not whitespace follows the
  marker, the whitespace before it is skipped, line breaks included, and the rest of that
  line is captured and stripped. If only whitespace follows the marker, the captured
  text is empty. If nothing follows the marker, or the text has no marker, the last line
  of the text that is not blank is taken, stripped, and the empty text when every line
  is blank. These cases cover every text. The captured text is classified by the JSON
  parse first, then the numeric parse (float when it holds a full stop, integer
  otherwise), then boolean, then string. So a text whose first marker is followed by
  \<open>42\<close> and then the end of the line gives the number 42 (given that \<open>json.loads\<close>
  reads \<open>42\<close> as 42), and likewise \<open>true\<close>, \<open>{"a":1}\<close> and \<open>hello world\<close>.
\<close>

theorem final_answer_capture_and_classify:
  assumes "first_marker response pre rest" and "drop 13 rest = ws @ body @ post"
    and "\<forall>c \<in> set ws. py_isspace c" and "post = [] \<or> hd post = CHR ''\<newline>''"
  shows "(body \<noteq> [] \<and> \<not> py_isspace (hd body) \<and> CHR ''\<newline>'' \<notin> set body \<longrightarrow>
            extract_final_answer lib response = Inr (classify_answer lib (strip body)))
       \<and> (body = ''42'' \<and> json_loads lib ''42'' = Inr (PInt 42) \<longrightarrow>
            extract_final_answer lib response = Inr (PInt 42))
       \<and> (body = ''true'' \<and> json_loads lib ''true'' = Inr (PBool True) \<longrightarrow>
            extract_final_answer lib response = Inr (PBool True))
       \<and> (body = json_a1 \<and> json_loads lib json_a1 = Inr (PDict [(''a'', PInt 1)]) \<longrightarrow>
            extract_final_answer lib response = Inr (PDict [(''a'', PInt 1)]))
       \<and> (body = ''hello world'' \<and> (\<exists>e. json_loads lib ''hello world'' = Inl e) \<and>
            (\<exists>e. py_int lib ''hello world'' = Inl e) \<longrightarrow>
            extract_final_answer lib response = Inr (PStr ''hello world''))
       \<and> (\<forall>other. (\<forall>i. \<not> marker_at (drop i other)) \<longrightarrow> captured_answer other = last_line other)
       \<and> (\<forall>other p r. first_marker other p r \<and> drop 13 r = [] \<longrightarrow>
            captured_answer other = last_line other)
       \<and> (\<forall>other p r. first_marker other p r \<and> drop 13 r \<noteq> [] \<and>
            (\<forall>c \<in> set (drop 13 r). py_isspace c) \<longrightarrow> captured_answer other = Inr [])
       \<and> (\<forall>other p r ws' body' post'.
            first_marker other p r \<and> drop 13 r = ws' @ body' @ post' \<and>
            (\<forall>c \<in> set ws'. py_isspace c) \<and> body' \<noteq> [] \<and> \<not> py_isspace (hd body') \<and>
            CHR ''\<newline>'' \<notin> set body' \<and> (post' = [] \<or> hd post' = CHR ''\<newline>'') \<longrightarrow>
            captured_answer other = Inr (strip body'))
       \<and> (\<forall>before line after.
            CHR ''\<newline>'' \<notin> set line \<and> (before = [] \<or> last before = CHR ''\<newline>'') \<and>
            (\<exists>c \<in> set line. \<not> py_isspace c) \<and> (\<forall>c \<in> set after. py_isspace c) \<longrightarrow>
            last_line (before @ line @ after) = Inr (strip line))
       \<and> (\<forall>other. (\<forall>c \<in> set other. py_isspace c) \<longrightarrow> last_line other = Inr [])
       \<and> (\<forall>other. (\<forall>i. \<not> marker_at (drop i other)) \<or> (\<exists>p r. first_marker other p r))
       \<and> (\<forall>r. (\<forall>c \<in> set r. py_isspace c) \<or>
            (\<exists>ws' body' post'. r = ws' @ body' @ post' \<and> (\<forall>c \<in> set ws'. py_isspace c) \<and>
               body' \<noteq> [] \<and> \<not> py_isspace (hd body') \<and> CHR ''\<newline>'' \<notin> set body' \<and>
               (post' = [] \<or> hd post' = CHR ''\<newline>'')))
       \<and> (\<forall>other. (\<forall>c \<in> set other. py_isspace c) \<or>
            (\<exists>before line after. other = before @ line @ after \<and> CHR ''\<newline>'' \<notin> set line \<and>
               (before = [] \<or> last before = CHR ''\<newline>'') \<and>
               (after = [] \<or> hd after = CHR ''\<newline>'') \<and>
               (\<exists>c \<in> set line. \<not> py_isspace c) \<and> (\<forall>c \<in> set after. py_isspace c)))
       \<and> (\<forall>other a. captured_answer other = Inr a \<longrightarrow>
            extract_final_answer lib other = Inr (classify_answer lib a))
       \<and> (\<forall>a v. json_loads lib a = Inr v \<longrightarrow> classify_answer lib a = v)
       \<and> (\<forall>a e v. json_loads lib a = Inl e \<and> parse_number lib a = Inr v \<longrightarrow> classify_answer lib a = v)
       \<and> (\<forall>a e e'. json_loads lib a = Inl e \<and> parse_number lib a = Inl e' \<longrightarrow>
            classify_answer lib a =
              (if lower a = ''true'' then PBool True
               else if lower a = ''false'' then PBool False else PStr a))
       \<and> (\<forall>a. parse_number lib a =
              (if py_in ''.'' a then map_sum id PFloat (py_float lib a)
               else map_sum id PInt (py_int lib a)))"
proof -
  have gen: "\<And>b. body = b \<Longrightarrow> b \<noteq> [] \<Longrightarrow> \<not> py_isspace (hd b) \<Longrightarrow> CHR ''\<newline>'' \<notin> set b \<Longrightarrow>
            extract_final_answer lib response = Inr (classify_answer lib (strip b))"
  proof -
    fix b assume b: "body = b" "b \<noteq> []" "\<not> py_isspace (hd b)" "CHR ''\<newline>'' \<notin> set b"
    have "captured_answer response = Inr (strip body)"
      using assms(1) assms(2) assms(3) _ _ _ assms(4)
      by (rule captured_at_marker) (simp_all add: b)
    then show "extract_final_answer lib response = Inr (classify_answer lib (strip b))"
      by (simp add: extract_final_answer_classify b)
  qed
  have c1: "body \<noteq> [] \<and> \<not> py_isspace (hd body) \<and> CHR ''\<newline>'' \<notin> set body \<longrightarrow>
            extract_final_answer lib response = Inr (classify_answer lib (strip body))"
    using gen [of body] by simp
  have s42: "strip ''42'' = ''42''" by code_simp
  have strue: "strip ''true'' = ''true''" by code_simp
  have sa1: "strip json_a1 = json_a1" by code_simp
  have shw: "strip ''hello world'' = ''hello world''" by code_simp
  have c2: "body = ''42'' \<and> json_loads lib ''42'' = Inr (PInt 42) \<longrightarrow>
            extract_final_answer lib response = Inr (PInt 42)"
  proof
    assume a: "body = ''42'' \<and> json_loads lib ''42'' = Inr (PInt 42)"
    then have "extract_final_answer lib response = Inr (classify_answer lib (strip ''42''))"
      by (intro gen) (simp_all add: py_isspace_def)
    with a show "extract_final_answer lib response = Inr (PInt 42)"
      by (simp add: s42 classify_json)
  qed
  have c3: "body = ''true'' \<and> json_loads lib ''true'' = Inr (PBool True) \<longrightarrow>
            extract_final_answer lib response = Inr (PBool True)"
  proof
    assume a: "body = ''true'' \<and> json_loads lib ''true'' = Inr (PBool True)"
    then have "extract_final_answer lib response = Inr (classify_answer lib (strip ''true''))"
      by (intro gen) (simp_all add: py_isspace_def)
    with a show "extract_final_answer lib response = Inr (PBool True)"
      by (simp add: strue classify_json)
  qed
  have c4: "body = json_a1 \<and> json_loads lib json_a1 = Inr (PDict [(''a'', PInt 1)]) \<longrightarrow>
            extract_final_answer lib response = Inr (PDict [(''a'', PInt 1)])"
  proof
    assume a: "body = json_a1 \<and> json_loads lib json_a1 = Inr (PDict [(''a'', PInt 1)])"
    then have "extract_final_answer lib response = Inr (classify_answer lib (strip json_a1))"
      by (intro gen) (simp_all add: py_isspace_def json_a1_def)
    with a show "extract_final_answer lib response = Inr (PDict [(''a'', PInt 1)])"
      by (simp add: sa1 classify_json)
  qed
  have c5: "body = ''hello world'' \<and> (\<exists>e. json_loads lib ''hello world'' = Inl e) \<and>
            (\<exists>e. py_int lib ''hello world'' = Inl e) \<longrightarrow>
            extract_final_answer lib response = Inr (PStr ''hello world'')"
  proof
    assume a: "body = ''hello world'' \<and> (\<exists>e. json_loads lib ''hello world'' = Inl e) \<and>
            (\<exists>e. py_int lib ''hello world'' = Inl e)"
    then obtain e e' where j: "json_loads lib ''hello world'' = Inl e"
      and i: "py_int lib ''hello world'' = Inl e'" by blast
    have nd: "\<not> py_in ''.'' ''hello world''" by code_simp
    have lw: "lower ''hello world'' = ''hello world''" by code_simp
    from i nd have p: "parse_number lib ''hello world'' = Inl e'"
      by (simp add: parse_number_cases)
    from a have "extract_final_answer lib response = Inr (classify_answer lib (strip ''hello world''))"
      by (intro gen) (simp_all add: py_isspace_def)
    then show "extract_final_answer lib response = Inr (PStr ''hello world'')"
      by (simp add: shw classify_rest [OF j p] lw)
  qed
  have c6: "\<forall>other. (\<forall>i. \<not> marker_at (drop i other)) \<longrightarrow> captured_answer other = last_line other"
    by (simp add: captured_answer_direct first_capture_no_marker)
  have c7: "\<forall>a v. json_loads lib a = Inr v \<longrightarrow> classify_answer lib a = v"
    by (simp add: classify_json)
  have c8: "\<forall>a e v. json_loads lib a = Inl e \<and> parse_number lib a = Inr v \<longrightarrow> classify_answer lib a = v"
    by (simp add: classify_number)
  have c9: "\<forall>a e e'. json_loads lib a = Inl e \<and> parse_number lib a = Inl e' \<longrightarrow>
            classify_answer lib a =
              (if lower a = ''true'' then PBool True
               else if lower a = ''false'' then PBool False else PStr a)"
    using classify_rest by blast
  have c10: "\<forall>a. parse_number lib a =
              (if py_in ''.'' a then map_sum id PFloat (py_float lib a)
               else map_sum id PInt (py_int lib a))"
    using parse_number_cases by blast
  have n1: "\<forall>other p r. first_marker other p r \<and> drop 13 r = [] \<longrightarrow>
            captured_answer other = last_line other"
    using captured_marker_at_end by blast
  have n2: "\<forall>other p r. first_marker other p r \<and> drop 13 r \<noteq> [] \<and>
            (\<forall>c \<in> set (drop 13 r). py_isspace c) \<longrightarrow> captured_answer other = Inr []"
    using captured_marker_blank by blast
  have n3: "\<forall>other p r ws' body' post'.
            first_marker other p r \<and> drop 13 r = ws' @ body' @ post' \<and>
            (\<forall>c \<in> set ws'. py_isspace c) \<and> body' \<noteq> [] \<and> \<not> py_isspace (hd body') \<and>
            CHR ''\<newline>'' \<notin> set body' \<and> (post' = [] \<or> hd post' = CHR ''\<newline>'') \<longrightarrow>
            captured_answer other = Inr (strip body')"
  proof (intro allI impI)
    fix other p r ws' body' post'
    assume a: "first_marker other p r \<and> drop 13 r = ws' @ body' @ post' \<and>
            (\<forall>c \<in> set ws'. py_isspace c) \<and> body' \<noteq> [] \<and> \<not> py_isspace (hd body') \<and>
            CHR ''\<newline>'' \<notin> set body' \<and> (post' = [] \<or> hd post' = CHR ''\<newline>'')"
    then have a1: "first_marker other p r" and a2: "drop 13 r = ws' @ body' @ post'"
      and a3: "\<forall>c \<in> set ws'. py_isspace c" and a4: "body' \<noteq> []"
      and a5: "\<not> py_isspace (hd body')" and a6: "CHR ''\<newline>'' \<notin> set body'"
      and a7: "post' = [] \<or> hd post' = CHR ''\<newline>''" by simp_all
    from a1 a2 a3 a4 a5 a6 a7 show "captured_answer other = Inr (strip body')"
      by (rule captured_at_marker)
  qed
  have n4: "\<forall>before line after.
            CHR ''\<newline>'' \<notin> set line \<and> (before = [] \<or> last before = CHR ''\<newline>'') \<and>
            (\<exists>c \<in> set line. \<not> py_isspace c) \<and> (\<forall>c \<in> set after. py_isspace c) \<longrightarrow>
            last_line (before @ line @ after) = Inr (strip line)"
  proof (intro allI impI)
    fix before line after
    assume a: "CHR ''\<newline>'' \<notin> set line \<and> (before = [] \<or> last before = CHR ''\<newline>'') \<and>
            (\<exists>c \<in> set line. \<not> py_isspace c) \<and> (\<forall>c \<in> set after. py_isspace c)"
    then have a1: "CHR ''\<newline>'' \<notin> set line" and a2: "before = [] \<or> last before = CHR ''\<newline>''"
      and a3: "\<exists>c \<in> set line. \<not> py_isspace c" and a4: "\<forall>c \<in> set after. py_isspace c"
      by simp_all
    from refl a1 a2 a3 a4 show "last_line (before @ line @ after) = Inr (strip line)"
      by (rule last_line_nonblank)
  qed
  have n5: "\<forall>other. (\<forall>c \<in> set other. py_isspace c) \<longrightarrow> last_line other = Inr []"
    using last_line_blank by blast
  have n6: "\<forall>other. (\<forall>i. \<not> marker_at (drop i other)) \<or> (\<exists>p r. first_marker other p r)"
    using marker_exhaustive by blast
  have n7: "\<forall>r. (\<forall>c \<in> set r. py_isspace c) \<or>
            (\<exists>ws' body' post'. r = ws' @ body' @ post' \<and> (\<forall>c \<in> set ws'. py_isspace c) \<and>
               body' \<noteq> [] \<and> \<not> py_isspace (hd body') \<and> CHR ''\<newline>'' \<notin> set body' \<and>
               (post' = [] \<or> hd post' = CHR ''\<newline>''))"
  proof
    fix r show "(\<forall>c \<in> set r. py_isspace c) \<or>
            (\<exists>ws' body' post'. r = ws' @ body' @ post' \<and> (\<forall>c \<in> set ws'. py_isspace c) \<and>
               body' \<noteq> [] \<and> \<not> py_isspace (hd body') \<and> CHR ''\<newline>'' \<notin> set body' \<and>
               (post' = [] \<or> hd post' = CHR ''\<newline>''))"
    proof (cases "\<forall>c \<in> set r. py_isspace c")
      case True
      then show ?thesis by (rule disjI1)
    next
      case False
      then have "\<exists>c \<in> set r. \<not> py_isspace c" by simp
      from body_exhaustive [OF this] show ?thesis by (rule disjI2)
    qed
  qed
  have n8: "\<forall>other. (\<forall>c \<in> set other. py_isspace c) \<or>
            (\<exists>before line after. other = before @ line @ after \<and> CHR ''\<newline>'' \<notin> set line \<and>
               (before = [] \<or> last before = CHR ''\<newline>'') \<and>
               (after = [] \<or> hd after = CHR ''\<newline>'') \<and>
               (\<exists>c \<in> set line. \<not> py_isspace c) \<and> (\<forall>c \<in> set after. py_isspace c))"
  proof
    fix other show "(\<forall>c \<in> set other. py_isspace c) \<or>
            (\<exists>before line after. other = before @ line @ after \<and> CHR ''\<newline>'' \<notin> set line \<and>
               (before = [] \<or> last before = CHR ''\<newline>'') \<and>
               (after = [] \<or> hd after = CHR ''\<newline>'') \<and>
               (\<exists>c \<in> set line. \<not> py_isspace c) \<and> (\<forall>c \<in> set after. py_isspace c))"
    proof (cases "\<forall>c \<in> set other. py_isspace c")
      case True
      then show ?thesis by (rule disjI1)
    next
      case False
      then have "\<exists>c \<in> set other. \<not> py_isspace c" by simp
      from line_exhaustive [OF this] show ?thesis by (rule disjI2)
    qed
  qed
  have n9: "\<forall>other a. captured_answer other = Inr a \<longrightarrow>
            extract_final_answer lib other = Inr (classify_answer lib a)"
    by (simp add: extract_final_answer_classify)
  from c1 c2 c3 c4 c5 c6 n1 n2 n3 n4 n5 n6 n7 n8 n9 c7 c8 c9 c10 show ?thesis by (intro conjI)
qed

theorem final_answer_capture_and_classify_witness:
  "extract_final_answer ref_lib ''A: FINAL_ANSWER: 42\<newline>bye'' = Inr (PInt 42)
   \<and> extract_final_answer ref_lib ''A: final_answer:\<newline>  true'' = Inr (PBool True)
   \<and> extract_final_answer ref_lib (''A: FINAL_ANSWER: '' @ json_a1) = Inr (PDict [(''a'', PInt 1)])
   \<and> extract_final_answer ref_lib ''A: Final_Answer: hello world\<newline>'' = Inr (PStr ''hello world'')
   \<and> extract_final_answer ref_lib ''A: FINAL_ANSWER:  '' = Inr (PStr [])
   \<and> extract_final_answer ref_lib ''so 7\<newline>A: FINAL_ANSWER:'' = Inr (PStr ''A: FINAL_ANSWER:'')"
proof -
  have m1: "marker_at ''FINAL_ANSWER: 42\<newline>bye''" by code_simp
  have m2: "marker_at ''final_answer:\<newline>  true''" by code_simp
  have m3: "marker_at (''FINAL_ANSWER: '' @ json_a1)" by code_simp
  have m4: "marker_at ''Final_Answer: hello world\<newline>''" by code_simp
  have m5: "marker_at ''FINAL_ANSWER:  ''" by code_simp
  have j1: "json_loads ref_lib ''42'' = Inr (PInt 42)" by code_simp
  have j2: "json_loads ref_lib ''true'' = Inr (PBool True)" by code_simp
  have j3: "json_loads ref_lib json_a1 = Inr (PDict [(''a'', PInt 1)])" by code_simp
  have j4: "json_loads ref_lib ''hello world'' = Inl (Raised ''JSONDecodeError'' ''Expecting value'')"
    by code_simp
  have i4: "py_int ref_lib ''hello world'' = Inl (Raised ''ValueError'' ''invalid literal for int() with base 10'')"
    by code_simp
  have sp: "\<forall>c \<in> set '' ''. py_isspace c" "\<forall>c \<in> set ''\<newline>  ''. py_isspace c"
    "\<forall>c \<in> set ''  ''. py_isspace c"
    by (simp_all add: py_isspace_def)
  have f1: "first_marker ''A: FINAL_ANSWER: 42\<newline>bye'' ''A: '' ''FINAL_ANSWER: 42\<newline>bye''"
    using first_marker_after_remark [OF m1] by simp
  have f2: "first_marker ''A: final_answer:\<newline>  true'' ''A: '' ''final_answer:\<newline>  true''"
    using first_marker_after_remark [OF m2] by simp
  have f3: "first_marker (''A: FINAL_ANSWER: '' @ json_a1) ''A: '' (''FINAL_ANSWER: '' @ json_a1)"
    using first_marker_after_remark [OF m3] by simp
  have f4: "first_marker ''A: Final_Answer: hello world\<newline>'' ''A: '' ''Final_Answer: hello world\<newline>''"
    using first_marker_after_remark [OF m4] by simp
  have f5: "first_marker ''A: FINAL_ANSWER:  '' ''A: '' ''FINAL_ANSWER:  ''"
    using first_marker_after_remark [OF m5] by simp
  have d1: "drop 13 ''FINAL_ANSWER: 42\<newline>bye'' = '' '' @ ''42'' @ ''\<newline>bye''" by simp
  have d2: "drop 13 ''final_answer:\<newline>  true'' = ''\<newline>  '' @ ''true'' @ []" by simp
  have d3: "drop 13 (''FINAL_ANSWER: '' @ json_a1) = '' '' @ json_a1 @ []" by simp
  have d4: "drop 13 ''Final_Answer: hello world\<newline>'' = '' '' @ ''hello world'' @ ''\<newline>''" by simp
  have p1: "''\<newline>bye'' = [] \<or> hd ''\<newline>bye'' = CHR ''\<newline>''" by simp
  have p2: "([]::string) = [] \<or> hd ([]::string) = CHR ''\<newline>''" by simp
  have p4: "''\<newline>'' = [] \<or> hd ''\<newline>'' = CHR ''\<newline>''" by simp
  note t1 = final_answer_capture_and_classify [OF f1 d1 sp(1) p1, of ref_lib]
  note t2 = final_answer_capture_and_classify [OF f2 d2 sp(2) p2, of ref_lib]
  note t3 = final_answer_capture_and_classify [OF f3 d3 sp(1) p2, of ref_lib]
  note t4 = final_answer_capture_and_classify [OF f4 d4 sp(1) p4, of ref_lib]
  from t1 have "''42'' = ''42'' \<and> json_loads ref_lib ''42'' = Inr (PInt 42) \<longrightarrow>
      extract_final_answer ref_lib ''A: FINAL_ANSWER: 42\<newline>bye'' = Inr (PInt 42)"
    by (elim conjE)
  with j1 have a: "extract_final_answer ref_lib ''A: FINAL_ANSWER: 42\<newline>bye'' = Inr (PInt 42)"
    by simp
  from t2 have "''true'' = ''true'' \<and> json_loads ref_lib ''true'' = Inr (PBool True) \<longrightarrow>
      extract_final_answer ref_lib ''A: final_answer:\<newline>  true'' = Inr (PBool True)"
    by (elim conjE)
  with j2 have b: "extract_final_answer ref_lib ''A: final_answer:\<newline>  true'' = Inr (PBool True)"
    by simp
  from t3 have "json_a1 = json_a1 \<and> json_loads ref_lib json_a1 = Inr (PDict [(''a'', PInt 1)]) \<longrightarrow>
      extract_final_answer ref_lib (''A: FINAL_ANSWER: '' @ json_a1) = Inr (PDict [(''a'', PInt 1)])"
    by (elim conjE)
  with j3 have c: "extract_final_answer ref_lib (''A: FINAL_ANSWER: '' @ json_a1) = Inr (PDict [(''a'', PInt 1)])"
    by simp
  from t4 have "''hello world'' = ''hello world'' \<and> (\<exists>e. json_loads ref_lib ''hello world'' = Inl e) \<and>
      (\<exists>e. py_int ref_lib ''hello world'' = Inl e) \<longrightarrow>
      extract_final_answer ref_lib ''A: Final_Answer: hello world\<newline>'' = Inr (PStr ''hello world'')"
    by (elim conjE)
  with j4 i4 have d: "extract_final_answer ref_lib ''A: Final_Answer: hello world\<newline>'' = Inr (PStr ''hello world'')"
    by simp
  from t1 have blank: "\<forall>other p r. first_marker other p r \<and> drop 13 r \<noteq> [] \<and>
            (\<forall>c \<in> set (drop 13 r). py_isspace c) \<longrightarrow> captured_answer other = Inr []"
    by (elim conjE)
  from t1 have res: "\<forall>other a. captured_answer other = Inr a \<longrightarrow>
            extract_final_answer ref_lib other = Inr (classify_answer ref_lib a)"
    by (elim conjE)
  from t1 have atend: "\<forall>other p r. first_marker other p r \<and> drop 13 r = [] \<longrightarrow>
            captured_answer other = last_line other"
    by (elim conjE)
  from t1 have lastl: "\<forall>before line after.
            CHR ''\<newline>'' \<notin> set line \<and> (before = [] \<or> last before = CHR ''\<newline>'') \<and>
            (\<exists>c \<in> set line. \<not> py_isspace c) \<and> (\<forall>c \<in> set after. py_isspace c) \<longrightarrow>
            last_line (before @ line @ after) = Inr (strip line)"
    by (elim conjE)
  have d5: "drop 13 ''FINAL_ANSWER:  '' = ''  ''" by simp
  from blank [rule_format, of "''A: FINAL_ANSWER:  ''" "''A: ''" "''FINAL_ANSWER:  ''"] f5 sp(3)
  have "captured_answer ''A: FINAL_ANSWER:  '' = Inr []" by (simp only: d5) simp
  with res have "extract_final_answer ref_lib ''A: FINAL_ANSWER:  '' = Inr (classify_answer ref_lib [])"
    by blast
  moreover have "classify_answer ref_lib [] = PStr []" by code_simp
  ultimately have e: "extract_final_answer ref_lib ''A: FINAL_ANSWER:  '' = Inr (PStr [])" by simp
  have m6: "marker_at ''FINAL_ANSWER:''" by code_simp
  have q: "\<not> marker_at ''so 7\<newline>A: FINAL_ANSWER:''" "\<not> marker_at ''o 7\<newline>A: FINAL_ANSWER:''"
    "\<not> marker_at '' 7\<newline>A: FINAL_ANSWER:''" "\<not> marker_at ''7\<newline>A: FINAL_ANSWER:''"
    "\<not> marker_at ''\<newline>A: FINAL_ANSWER:''" "\<not> marker_at ''A: FINAL_ANSWER:''"
    "\<not> marker_at '': FINAL_ANSWER:''" "\<not> marker_at '' FINAL_ANSWER:''"
    by code_simp+
  have n6: "\<forall>i < length ''so 7\<newline>A: ''. \<not> marker_at (drop i ''so 7\<newline>A: FINAL_ANSWER:'')"
    using q by (simp add: less_Suc_eq)
  with m6 have f6: "first_marker ''so 7\<newline>A: FINAL_ANSWER:'' ''so 7\<newline>A: '' ''FINAL_ANSWER:''"
    by (simp add: first_marker_def)
  from atend [rule_format, of "''so 7\<newline>A: FINAL_ANSWER:''" "''so 7\<newline>A: ''" "''FINAL_ANSWER:''"] f6
  have "captured_answer ''so 7\<newline>A: FINAL_ANSWER:'' = last_line ''so 7\<newline>A: FINAL_ANSWER:''"
    by simp
  also have "last_line (''so 7\<newline>'' @ ''A: FINAL_ANSWER:'' @ []) = Inr (strip ''A: FINAL_ANSWER:'')"
    by (rule lastl [rule_format]) (simp add: py_isspace_def)
  then have "last_line ''so 7\<newline>A: FINAL_ANSWER:'' = Inr (strip ''A: FINAL_ANSWER:'')" by simp
  also have "strip ''A: FINAL_ANSWER:'' = ''A: FINAL_ANSWER:''" by code_simp
  finally have "captured_answer ''so 7\<newline>A: FINAL_ANSWER:'' = Inr ''A: FINAL_ANSWER:''" .
  with res have "extract_final_answer ref_lib ''so 7\<newline>A: FINAL_ANSWER:''
                   = Inr (classify_answer ref_lib ''A: FINAL_ANSWER:'')" by blast
  moreover have "classify_answer ref_lib ''A: FINAL_ANSWER:'' = PStr ''A: FINAL_ANSWER:''" by code_simp
  ultimately have f: "extract_final_answer ref_lib ''so 7\<newline>A: FINAL_ANSWER:'' = Inr (PStr ''A: FINAL_ANSWER:'')"
    by simp
  from a b c d e f show ?thesis by (intro conjI)
qed

text \<open>
  A text that contains \<open>FINAL_ANSWER: 42\<close> need not give 42: more text on the line, more
  digits, or an earlier marker change the answer.
\<close>

theorem final_answer_counterexample:
  "extract_final_answer ref_lib ''FINAL_ANSWER: 42 apples'' = Inr (PStr ''42 apples'')
   \<and> extract_final_answer ref_lib ''FINAL_ANSWER: 420'' = Inr (PInt 420)
   \<and> extract_final_answer ref_lib ''FINAL_ANSWER: 7\<newline>FINAL_ANSWER: 42'' = Inr (PInt 7)"
  by code_simp

text \<open>
  C10. \<open>extract_final_answer\<close> returns a value on every text and for every behaviour of
  \<open>json.loads\<close>, \<open>int\<close> and \<open>float\<close>: their failures are absorbed, and what no stage
  accepts is returned as a string, the empty string included.
\<close>

theorem extract_final_answer_total:
  "(\<exists>v. extract_final_answer lib response = Inr v)
   \<and> (\<forall>a e e'. captured_answer response = Inr a \<and> json_loads lib a = Inl e \<and>
          parse_number lib a = Inl e' \<longrightarrow>
          extract_final_answer lib response =
            Inr (if lower a = ''true'' then PBool True
                 else if lower a = ''false'' then PBool False else PStr a))
   \<and> (\<forall>e e'. json_loads lib [] = Inl e \<and> py_int lib [] = Inl e' \<longrightarrow>
          extract_final_answer lib [] = Inr (PStr []))"
proof (intro conjI allI impI)
  from captured_answer_total [of response] obtain a where "captured_answer response = Inr a" ..
  then show "\<exists>v. extract_final_answer lib response = Inr v"
    by (simp add: extract_final_answer_classify)
next
  fix a e e'
  assume "captured_answer response = Inr a \<and> json_loads lib a = Inl e \<and> parse_number lib a = Inl e'"
  then show "extract_final_answer lib response =
            Inr (if lower a = ''true'' then PBool True
                 else if lower a = ''false'' then PBool False else PStr a)"
    by (simp add: extract_final_answer_classify classify_rest)
next
  fix e e' assume a: "json_loads lib [] = Inl e \<and> py_int lib [] = Inl e'"
  have c: "captured_answer [] = Inr []"
    by (simp add: captured_answer_direct last_line_def strip_def)
  from a have p: "parse_number lib [] = Inl e'" by (simp add: parse_number_cases)
  from a have j: "json_loads lib [] = Inl e" by simp
  show "extract_final_answer lib [] = Inr (PStr [])"
    by (simp add: extract_final_answer_classify [OF c] classify_rest [OF j p] lower_def)
qed

theorem extract_final_answer_total_witness:
  "extract_final_answer ref_lib [] = Inr (PStr [])
   \<and> (\<exists>v. extract_final_answer ref_lib ''no marker here'' = Inr v)"
proof -
  have j: "json_loads ref_lib [] = Inl (Raised ''JSONDecodeError'' ''Expecting value'')" by code_simp
  have i: "py_int ref_lib [] = Inl (Raised ''ValueError'' ''invalid literal for int() with base 10'')"
    by code_simp
  from extract_final_answer_total [of ref_lib "[]"] j i
       extract_final_answer_total [of ref_lib "''no marker here''"]
  show ?thesis by blast
qed

section \<open>Properties of the attachment decoder\<close>

lemma py_in_sublist: "py_in sub s \<longleftrightarrow> sublist sub s"
  by (induction s) (simp_all add: sublist_Cons_right)

lemma xlsx_contains_xls: "sublist ''.xlsx'' s \<Longrightarrow> sublist ''.xls'' s"
proof -
  assume a: "sublist ''.xlsx'' s"
  have "sublist ''.xls'' ''.xlsx''" by (rule prefix_imp_sublist) simp
  from this a show ?thesis by (rule sublist_order.order_trans)
qed

lemma detect_file_type_cases:
  "detect_file_type url =
     (if sublist ''.pdf'' (lower url) then ''pdf''
      else if sublist ''.csv'' (lower url) then ''csv''
      else if sublist ''.xls'' (lower url) then ''xlsx''
      else if sublist ''.json'' (lower url) then ''json''
      else if sublist ''.txt'' (lower url) then ''txt''
      else ''unknown'')"
  using xlsx_contains_xls [of "lower url"]
  by (auto simp: detect_file_type_def Let_def py_in_sublist)

lemma summarise_unknown:
  "detect_file_type url = ''unknown'' \<Longrightarrow>
     summarise lib url content = PDict [(''error'', PStr ''Unknown file type'')]"
  by (simp add: summarise_def process_one_def error_summary_def)

text \<open>
  C6 (as the code has it). \<open>detect_file_type\<close> assigns the type by the first of
  \<open>.pdf\<close>, \<open>.csv\<close>, \<open>.xlsx\<close>/\<open>.xls\<close>, \<open>.json\<close>, \<open>.txt\<close>, tried in this order, that
  occurs anywhere in the lower-cased URL, not only at its end; a URL that contains none
  of them is \<open>unknown\<close>, which yields the error summary \<open>Unknown file type\<close>. A URL
  that ends in \<open>.pdf\<close> is always \<open>pdf\<close>.
\<close>

theorem detect_file_type_by_substring:
  "(detect_file_type url = ''pdf'' \<longleftrightarrow> sublist ''.pdf'' (lower url))
   \<and> (detect_file_type url = ''csv'' \<longleftrightarrow>
        \<not> sublist ''.pdf'' (lower url) \<and> sublist ''.csv'' (lower url))
   \<and> (detect_file_type url = ''xlsx'' \<longleftrightarrow>
        \<not> sublist ''.pdf'' (lower url) \<and> \<not> sublist ''.csv'' (lower url) \<and>
        sublist ''.xls'' (lower url))
   \<and> (detect_file_type url = ''json'' \<longleftrightarrow>
        \<not> sublist ''.pdf'' (lower url) \<and> \<not> sublist ''.csv'' (lower url) \<and>
        \<not> sublist ''.xls'' (lower url) \<and> sublist ''.json'' (lower url))
   \<and> (detect_file_type url = ''txt'' \<longleftrightarrow>
        \<not> sublist ''.pdf'' (lower url) \<and> \<not> sublist ''.csv'' (lower url) \<and>
        \<not> sublist ''.xls'' (lower url) \<and> \<not> sublist ''.json'' (lower url) \<and>
        sublist ''.txt'' (lower url))
   \<and> (detect_file_type url = ''unknown'' \<longleftrightarrow>
        \<not> sublist ''.pdf'' (lower url) \<and> \<not> sublist ''.csv'' (lower url) \<and>
        \<not> sublist ''.xls'' (lower url) \<and> \<not> sublist ''.json'' (lower url) \<and>
        \<not> sublist ''.txt'' (lower url))
   \<and> (detect_file_type url = ''unknown'' \<longrightarrow>
        summarise lib url content = PDict [(''error'', PStr ''Unknown file type'')])
   \<and> (suffix ''.pdf'' (lower url) \<longrightarrow> detect_file_type url = ''pdf'')"
proof -
  have s: "suffix ''.pdf'' (lower url) \<longrightarrow> detect_file_type url = ''pdf''"
    by (auto simp: detect_file_type_cases)
  have u: "detect_file_type url = ''unknown'' \<longrightarrow>
        summarise lib url content = PDict [(''error'', PStr ''Unknown file type'')]"
    by (simp add: summarise_unknown)
  show ?thesis
    by (intro conjI s u) (simp_all add: detect_file_type_cases)
qed

theorem detect_file_type_by_substring_witness:
  "detect_file_type ''https://files.test/Data.CSV'' = ''csv''
   \<and> detect_file_type ''https://files.test/notes.txt?v=2'' = ''txt''
   \<and> summarise ref_lib ''https://files.test/archive.zip'' ''PK'' =
       PDict [(''error'', PStr ''Unknown file type'')]"
proof -
  have a: "\<not> sublist ''.pdf'' (lower ''https://files.test/Data.CSV'')"
          "sublist ''.csv'' (lower ''https://files.test/Data.CSV'')"
    by code_simp+
  have b: "\<not> sublist ''.pdf'' (lower ''https://files.test/notes.txt?v=2'')"
          "\<not> sublist ''.csv'' (lower ''https://files.test/notes.txt?v=2'')"
          "\<not> sublist ''.xls'' (lower ''https://files.test/notes.txt?v=2'')"
          "\<not> sublist ''.json'' (lower ''https://files.test/notes.txt?v=2'')"
          "sublist ''.txt'' (lower ''https://files.test/notes.txt?v=2'')"
    by code_simp+
  have c: "\<not> sublist ''.pdf'' (lower ''https://files.test/archive.zip'')"
          "\<not> sublist ''.csv'' (lower ''https://files.test/archive.zip'')"
          "\<not> sublist ''.xls'' (lower ''https://files.test/archive.zip'')"
          "\<not> sublist ''.json'' (lower ''https://files.test/archive.zip'')"
          "\<not> sublist ''.txt'' (lower ''https://files.test/archive.zip'')"
    by code_simp+
  from detect_file_type_by_substring [of "''https://files.test/Data.CSV''" ref_lib "[]"] a
       detect_file_type_by_substring [of "''https://files.test/notes.txt?v=2''" ref_lib "[]"] b
       detect_file_type_by_substring [of "''https://files.test/archive.zip''" ref_lib "''PK''"] c
  show ?thesis by blast
qed

text \<open>
  A URL that does not end in \<open>.pdf\<close> is classified as \<open>pdf\<close>, and so is one that ends
  in \<open>.csv\<close>.
\<close>

theorem detect_file_type_counterexample:
  "detect_file_type ''https://files.test/report.pdf.zip'' = ''pdf''
   \<and> \<not> suffix ''.pdf'' (lower ''https://files.test/report.pdf.zip'')
   \<and> detect_file_type ''https://x.pdf.test/data.csv'' = ''pdf''
   \<and> suffix ''.csv'' (lower ''https://x.pdf.test/data.csv'')"
  by code_simp













end
